theory Spec2Isabelle
  imports Complex_Main "HOL-Library.Word"
begin

section \<open>The snowfall grid of \<^verbatim>\<open>src/components/Snowfall/Snowfall.js\<close>\<close>

text \<open>
  The embedding follows the class \<^verbatim>\<open>SnowPile\<close> and the collision helpers of the
  source file. Grid coordinates are JavaScript numbers that only ever hold integers and
  are modelled as \<open>int\<close>. The two cell buffers are \<^verbatim>\<open>Uint8Array\<close>s (lists of
  \<open>8 word\<close>, holding 0 for an empty cell, 1 for snow and 2 for a blocker) and the
  cached column counts are a \<^verbatim>\<open>Uint16Array\<close> (a list of \<open>16 word\<close>, so that
  \<^verbatim>\<open>++\<close> and \<^verbatim>\<open>--\<close> wrap around as they do in the source). Pixel coordinates and
  probabilities are modelled as \<open>real\<close>; the values \<^verbatim>\<open>NaN\<close> and \<^verbatim>\<open>Infinity\<close> and the
  rounding of floating-point products are outside the model. The calls of
  \<^verbatim>\<open>Math.random()\<close> read an arbitrary sequence \<open>rng :: nat \<Rightarrow> real\<close>, one element
  per call, in call order.
\<close>

subsection \<open>Typed arrays\<close>

text \<open>
  Reading a typed array outside its range yields \<^verbatim>\<open>undefined\<close> (here \<open>None\<close>); writing
  outside its range is ignored.
\<close>

definition arr_get :: "'a list \<Rightarrow> int \<Rightarrow> 'a option" where
  "arr_get a i = (if 0 \<le> i \<and> i < int (length a) then Some (a ! nat i) else None)"

definition arr_set :: "'a list \<Rightarrow> int \<Rightarrow> 'a \<Rightarrow> 'a list" where
  "arr_set a i v = (if 0 \<le> i \<and> i < int (length a) then a[nat i := v] else a)"

text \<open>
  \<^verbatim>\<open>a[i]++\<close> and \<^verbatim>\<open>a[i]--\<close>: outside the range the operand is \<^verbatim>\<open>undefined\<close>, the
  result \<^verbatim>\<open>NaN\<close>, and the write is ignored.
\<close>

definition arr_upd :: "'a list \<Rightarrow> int \<Rightarrow> ('a \<Rightarrow> 'a) \<Rightarrow> 'a list" where
  "arr_upd a i f = (case arr_get a i of None \<Rightarrow> a | Some v \<Rightarrow> arr_set a i (f v))"

datatype error = RangeError

text \<open>
  \<^verbatim>\<open>target.set(source)\<close> copies the source to the front of the target and throws a
  \<^verbatim>\<open>RangeError\<close> when the source is longer than the target.
\<close>

definition typed_array_set :: "'a list \<Rightarrow> 'a list \<Rightarrow> error + 'a list" where
  "typed_array_set target source =
     (if length source \<le> length target then Inr (source @ drop (length source) target)
      else Inl RangeError)"

subsection \<open>Configuration and state\<close>

record config =
  cellSize :: real
  collectAtBottom :: bool
  chanceToSpread :: real
  chanceToDecay :: real

definition CONFIG :: config where
  "CONFIG = \<lparr> cellSize = 1, collectAtBottom = False,
              chanceToSpread = 4 / 1000, chanceToDecay = 2 / 10000 \<rparr>"

record SnowPile =
  cellWidth :: real
  currentBuffer :: "8 word list"
  nextBuffer :: "8 word list"
  colCount :: int
  rowCount :: int
  columnCounts :: "16 word list"

subsection \<open>Core accessors\<close>

definition getIndex :: "SnowPile \<Rightarrow> int \<Rightarrow> int \<Rightarrow> int" where
  "getIndex S col row = row * colCount S + col"

definition getValue :: "SnowPile \<Rightarrow> int \<Rightarrow> int \<Rightarrow> 8 word option" where
  "getValue S col row =
     (if col < 0 \<or> col \<ge> colCount S \<or> row < 0 \<or> row \<ge> rowCount S then None
      else arr_get (currentBuffer S) (getIndex S col row))"

definition getValueUnsafe :: "SnowPile \<Rightarrow> int \<Rightarrow> int \<Rightarrow> 8 word option" where
  "getValueUnsafe S col row = arr_get (currentBuffer S) (row * colCount S + col)"

definition setValueUnsafe :: "SnowPile \<Rightarrow> int \<Rightarrow> int \<Rightarrow> 8 word \<Rightarrow> SnowPile" where
  "setValueUnsafe S col row v =
     S\<lparr>currentBuffer := arr_set (currentBuffer S) (row * colCount S + col) v\<rparr>"

subsection \<open>Snow management\<close>

text \<open>The \<^verbatim>\<open>while (row >= 0)\<close> loop of \<^verbatim>\<open>add\<close>, with its early return.\<close>

function add_loop :: "SnowPile \<Rightarrow> int \<Rightarrow> int \<Rightarrow> SnowPile" where
  "add_loop S col row =
     (if row \<ge> 0 then
        (if getValueUnsafe S col row = Some 0 then
           (setValueUnsafe S col row 1)
             \<lparr>columnCounts := arr_upd (columnCounts S) col (\<lambda>c. c + 1)\<rparr>
         else add_loop S col (row - 1))
      else S)"
  by pat_completeness auto
termination
  by (relation "measure (\<lambda>(S, col, row). nat (row + 1))") auto

declare add_loop.simps [simp del]

definition add :: "config \<Rightarrow> SnowPile \<Rightarrow> int \<Rightarrow> int \<Rightarrow> SnowPile" where
  "add cfg S col baseRow =
     (if \<not> collectAtBottom cfg \<and> baseRow = rowCount S - 1 then S
      else add_loop S col (min baseRow (rowCount S - 1)))"

text \<open>\<^verbatim>\<open>isRowFull\<close>: the loop over the columns returns at the first cell that is not snow.\<close>

function isRowFull_loop :: "SnowPile \<Rightarrow> int \<Rightarrow> int \<Rightarrow> bool" where
  "isRowFull_loop S rowIndex i =
     (if i < colCount S then
        (if getValueUnsafe S i rowIndex \<noteq> Some 1 then False
         else isRowFull_loop S rowIndex (i + 1))
      else True)"
  by pat_completeness auto
termination
  by (relation "measure (\<lambda>(S, rowIndex, i). nat (colCount S - i))") auto

declare isRowFull_loop.simps [simp del]

definition isRowFull :: "SnowPile \<Rightarrow> int \<Rightarrow> bool" where
  "isRowFull S rowIndex = isRowFull_loop S rowIndex 0"

function clearRow_loop :: "SnowPile \<Rightarrow> int \<Rightarrow> int \<Rightarrow> SnowPile" where
  "clearRow_loop S rowIndex col =
     (if col < colCount S then
        clearRow_loop
          (if getValueUnsafe S col rowIndex = Some 1 then
             (setValueUnsafe S col rowIndex 0)
               \<lparr>columnCounts := arr_upd (columnCounts S) col (\<lambda>c. c - 1)\<rparr>
           else S)
          rowIndex (col + 1)
      else S)"
  by pat_completeness auto
termination
  by (relation "measure (\<lambda>(S, rowIndex, col). nat (colCount S - col))")
     (auto simp: setValueUnsafe_def)

declare clearRow_loop.simps [simp del]

definition clearRow :: "SnowPile \<Rightarrow> int \<Rightarrow> SnowPile" where
  "clearRow S rowIndex = clearRow_loop S rowIndex 0"

text \<open>
  \<^verbatim>\<open>clearAllSnow\<close>: the inner loop clears the snow of one column, the outer loop
  visits the columns and resets each cached count.
\<close>

function clearAllSnow_rows :: "SnowPile \<Rightarrow> int \<Rightarrow> int \<Rightarrow> SnowPile" where
  "clearAllSnow_rows S col row =
     (if row < rowCount S then
        clearAllSnow_rows
          (if getValueUnsafe S col row = Some 1 then setValueUnsafe S col row 0 else S)
          col (row + 1)
      else S)"
  by pat_completeness auto
termination
  by (relation "measure (\<lambda>(S, col, row). nat (rowCount S - row))")
     (auto simp: setValueUnsafe_def)

declare clearAllSnow_rows.simps [simp del]

function clearAllSnow_cols :: "SnowPile \<Rightarrow> int \<Rightarrow> SnowPile" where
  "clearAllSnow_cols S col =
     (if col < colCount S then
        clearAllSnow_cols
          ((clearAllSnow_rows S col 0)
             \<lparr>columnCounts := arr_set (columnCounts (clearAllSnow_rows S col 0)) col 0\<rparr>)
          (col + 1)
      else S)"
  by pat_completeness auto
termination
proof (relation "measure (\<lambda>(S, col). nat (colCount S - col))")
  show "wf (measure (\<lambda>(S, col). nat (colCount S - col)))"
    by simp
next
  fix S :: SnowPile and col :: int
  assume less: "col < colCount S"
  have keep: "colCount (clearAllSnow_rows T c r) = colCount T" for T c r
  proof (induction T c r rule: clearAllSnow_rows.induct)
    case (1 T c r)
    show ?case
      by (subst clearAllSnow_rows.simps) (use 1 in \<open>simp add: setValueUnsafe_def\<close>)
  qed
  show "((clearAllSnow_rows S col 0
            \<lparr>columnCounts := arr_set (columnCounts (clearAllSnow_rows S col 0)) col 0\<rparr>,
          col + 1), S, col) \<in> measure (\<lambda>(S, col). nat (colCount S - col))"
    using less by (simp add: keep)
qed

declare clearAllSnow_cols.simps [simp del]

definition clearAllSnow :: "SnowPile \<Rightarrow> SnowPile" where
  "clearAllSnow S = clearAllSnow_cols S 0"

subsection \<open>Physics update\<close>

text \<open>
  \<^verbatim>\<open>cascadeColumn\<close>: \<open>readRow\<close> runs from the row above the gap up to row 0; snow that
  is found moves to \<open>writeRow\<close>, a blocker ends the loop.
\<close>

function cascade_loop :: "int \<Rightarrow> int \<Rightarrow> 8 word list \<Rightarrow> int \<Rightarrow> int \<Rightarrow> 8 word list" where
  "cascade_loop cc col buffer writeRow readRow =
     (if readRow \<ge> 0 then
        (if arr_get buffer (readRow * cc + col) = Some 1 then
           cascade_loop cc col
             (arr_set (arr_set buffer (writeRow * cc + col) 1) (readRow * cc + col) 0)
             (writeRow - 1) (readRow - 1)
         else if arr_get buffer (readRow * cc + col) = Some 2 then buffer
         else cascade_loop cc col buffer writeRow (readRow - 1))
      else buffer)"
  by pat_completeness auto
termination
  by (relation "measure (\<lambda>(cc, col, buffer, writeRow, readRow). nat (readRow + 1))") auto

declare cascade_loop.simps [simp del]

definition cascadeColumn :: "SnowPile \<Rightarrow> 8 word list \<Rightarrow> int \<Rightarrow> int \<Rightarrow> 8 word list" where
  "cascadeColumn S buffer col gapRow = cascade_loop (colCount S) col buffer gapRow (gapRow - 1)"

text \<open>
  The variables that one call of \<^verbatim>\<open>update\<close> changes while it runs: the write buffer
  \<^verbatim>\<open>next\<close>, the cached counts, the list \<^verbatim>\<open>columnsNeedingCascade\<close> (in push order), and
  the number of calls of \<^verbatim>\<open>Math.random()\<close> made so far.
\<close>

record pass =
  nextB :: "8 word list"
  counts :: "16 word list"
  columnsNeedingCascade :: "(int \<times> int) list"
  draws :: nat

text \<open>
  The body of the inner loop of \<^verbatim>\<open>update\<close> for the cell at \<open>(col, row)\<close>. All reads of
  cells go to the active buffer of \<open>S\<close>, all writes to \<open>nextB\<close>. A count read outside
  the array is \<^verbatim>\<open>undefined\<close>, for which both comparisons are false.
\<close>

definition updateCell :: "config \<Rightarrow> (nat \<Rightarrow> real) \<Rightarrow> SnowPile \<Rightarrow> int \<Rightarrow> int \<Rightarrow> pass \<Rightarrow> pass" where
  "updateCell cfg rng S row col p =
     (let current = currentBuffer S;
          idx = row * colCount S + col
      in if arr_get current idx \<noteq> Some 1 then p
      else
        let idxBelow = (row + 1) * colCount S + col;
            cellBelow = arr_get current idxBelow
        in if cellBelow = Some 0 then
             p\<lparr>nextB := arr_set (arr_set (nextB p) idxBelow 1) idx 0\<rparr>
        else if cellBelow = Some 2 then p
        else
          let columnSnowCount = arr_get (counts p) col;
              willSpread = (case columnSnowCount of None \<Rightarrow> False
                 | Some c \<Rightarrow> rng (draws p) < chanceToSpread cfg * real (unat c));
              p1 = p\<lparr>draws := Suc (draws p)\<rparr>
          in if willSpread \<and> (case columnSnowCount of None \<Rightarrow> False
                 | Some c \<Rightarrow> int (unat c) < rowCount S - 3) then
               let canMoveLeft = (col > 0 \<and> arr_get current (idx - 1) = Some 0);
                   canMoveRight = (col < colCount S - 1 \<and> arr_get current (idx + 1) = Some 0);
                   dir = (if canMoveLeft \<and> canMoveRight then
                            (if rng (draws p1) < 1 / 2 then - 1 else 1)
                          else if canMoveLeft then - 1
                          else if canMoveRight then 1
                          else (0 :: int));
                   p2 = (if canMoveLeft \<and> canMoveRight then p1\<lparr>draws := Suc (draws p1)\<rparr> else p1)
               in if dir \<noteq> 0 then
                    p2\<lparr>nextB := arr_set (arr_set (nextB p2) (idx + dir) 1) idx 0,
                       counts := arr_upd (arr_upd (counts p2) col (\<lambda>c. c - 1))
                                   (col + dir) (\<lambda>c. c + 1),
                       columnsNeedingCascade := columnsNeedingCascade p2 @ [(col, row)]\<rparr>
                  else p2
             else
               if rng (draws p1) < chanceToDecay cfg then
                 p1\<lparr>draws := Suc (draws p1),
                    nextB := arr_set (nextB p1) idx 0,
                    counts := arr_upd (counts p1) col (\<lambda>c. c - 1),
                    columnsNeedingCascade := columnsNeedingCascade p1 @ [(col, row)]\<rparr>
               else p1\<lparr>draws := Suc (draws p1)\<rparr>)"

function update_cols :: "config \<Rightarrow> (nat \<Rightarrow> real) \<Rightarrow> SnowPile \<Rightarrow> int \<Rightarrow> int \<Rightarrow> pass \<Rightarrow> pass" where
  "update_cols cfg rng S row col p =
     (if col < colCount S then update_cols cfg rng S row (col + 1) (updateCell cfg rng S row col p)
      else p)"
  by pat_completeness auto
termination
  by (relation "measure (\<lambda>(cfg, rng, S, row, col, p). nat (colCount S - col))") auto

declare update_cols.simps [simp del]

function update_rows :: "config \<Rightarrow> (nat \<Rightarrow> real) \<Rightarrow> SnowPile \<Rightarrow> int \<Rightarrow> pass \<Rightarrow> pass" where
  "update_rows cfg rng S row p =
     (if row \<ge> 0 then
        (if isRowFull S row then update_rows cfg rng S (row - 1) p
         else update_rows cfg rng S (row - 1) (update_cols cfg rng S row 0 p))
      else p)"
  by pat_completeness auto
termination
  by (relation "measure (\<lambda>(cfg, rng, S, row, p). nat (row + 1))") auto

declare update_rows.simps [simp del]

text \<open>Step 3 of \<^verbatim>\<open>update\<close>: one cascade per recorded gap, in push order.\<close>

fun cascade_all :: "SnowPile \<Rightarrow> 8 word list \<Rightarrow> (int \<times> int) list \<Rightarrow> 8 word list" where
  "cascade_all S buffer [] = buffer"
| "cascade_all S buffer ((col, row) # rest) = cascade_all S (cascadeColumn S buffer col row) rest"

text \<open>The state of the pass after steps 2 and 3, before the bottom row is cleared.\<close>

definition update_physics :: "config \<Rightarrow> (nat \<Rightarrow> real) \<Rightarrow> SnowPile \<Rightarrow> 8 word list \<Rightarrow> pass" where
  "update_physics cfg rng S next0 =
     (let p = update_rows cfg rng S (rowCount S - 2)
                \<lparr>nextB = next0, counts = columnCounts S, columnsNeedingCascade = [], draws = 0\<rparr>
      in p\<lparr>nextB := cascade_all S (nextB p) (columnsNeedingCascade p)\<rparr>)"

text \<open>The loop that clears the bottom row when snow is not collected there.\<close>

function clearBottom_loop :: "SnowPile \<Rightarrow> int \<Rightarrow> int \<Rightarrow> pass \<Rightarrow> pass" where
  "clearBottom_loop S bottomRowStart col p =
     (if col < colCount S then
        clearBottom_loop S bottomRowStart (col + 1)
          (if arr_get (nextB p) (bottomRowStart + col) = Some 1 then
             p\<lparr>nextB := arr_set (nextB p) (bottomRowStart + col) 0,
               counts := arr_upd (counts p) col (\<lambda>c. c - 1)\<rparr>
           else p)
      else p)"
  by pat_completeness auto
termination
  by (relation "measure (\<lambda>(S, bottomRowStart, col, p). nat (colCount S - col))") auto

declare clearBottom_loop.simps [simp del]

definition update :: "config \<Rightarrow> (nat \<Rightarrow> real) \<Rightarrow> SnowPile \<Rightarrow> error + SnowPile" where
  "update cfg rng S =
     (case typed_array_set (nextBuffer S) (currentBuffer S) of
        Inl e \<Rightarrow> Inl e
      | Inr next0 \<Rightarrow>
          (let p = update_physics cfg rng S next0;
               p' = (if \<not> collectAtBottom cfg then
                       clearBottom_loop S ((rowCount S - 1) * colCount S) 0 p
                     else p)
           in Inr (S\<lparr>currentBuffer := nextB p', nextBuffer := currentBuffer S,
                     columnCounts := counts p'\<rparr>)))"

subsection \<open>Construction\<close>

record surfacePos =
  pos_top :: real
  pos_left :: real
  pos_right :: real
  pos_bottom :: real
  pos_width :: real
  pos_height :: real

text \<open>
  The loop over \<^verbatim>\<open>surfacePositions\<close> in \<^verbatim>\<open>resize\<close>: is the centre of a cell inside
  some surface rectangle, edges included?
\<close>

fun insideSurface :: "surfacePos list \<Rightarrow> real \<Rightarrow> real \<Rightarrow> bool" where
  "insideSurface [] x y = False"
| "insideSurface (surfPos # rest) x y =
     (if x \<ge> pos_left surfPos \<and> x \<le> pos_right surfPos \<and>
         y \<ge> pos_top surfPos \<and> y \<le> pos_bottom surfPos
      then True else insideSurface rest x y)"

function resize_rows :: "surfacePos list \<Rightarrow> SnowPile \<Rightarrow> int \<Rightarrow> int \<Rightarrow> SnowPile" where
  "resize_rows surfacePositions S col row =
     (if row < rowCount S then
        resize_rows surfacePositions
          (if insideSurface surfacePositions
                (of_int col * cellWidth S + cellWidth S / 2)
                (of_int row * cellWidth S + cellWidth S / 2)
           then setValueUnsafe S col row 2 else S)
          col (row + 1)
      else S)"
  by pat_completeness auto
termination
  by (relation "measure (\<lambda>(surfacePositions, S, col, row). nat (rowCount S - row))")
     (auto simp: setValueUnsafe_def)

declare resize_rows.simps [simp del]

function resize_cols :: "surfacePos list \<Rightarrow> SnowPile \<Rightarrow> int \<Rightarrow> SnowPile" where
  "resize_cols surfacePositions S col =
     (if col < colCount S then
        resize_cols surfacePositions (resize_rows surfacePositions S col 0) (col + 1)
      else S)"
  by pat_completeness auto
termination
proof (relation "measure (\<lambda>(surfacePositions, S, col). nat (colCount S - col))")
  show "wf (measure (\<lambda>(surfacePositions :: surfacePos list, S, col). nat (colCount S - col)))"
    by simp
next
  fix surfacePositions :: "surfacePos list" and S :: SnowPile and col :: int
  assume less: "col < colCount S"
  have keep: "colCount (resize_rows surfacePositions T c r) = colCount T" for T c r
  proof (induction surfacePositions T c r rule: resize_rows.induct)
    case (1 surfacePositions T c r)
    show ?case
      by (subst resize_rows.simps) (use 1 in \<open>simp add: setValueUnsafe_def\<close>)
  qed
  show "((surfacePositions, resize_rows surfacePositions S col 0, col + 1),
         surfacePositions, S, col)
        \<in> measure (\<lambda>(surfacePositions, S, col). nat (colCount S - col))"
    using less by (simp add: keep)
qed

declare resize_cols.simps [simp del]

text \<open>
  \<^verbatim>\<open>resize\<close>. \<^verbatim>\<open>new Uint8Array(n)\<close> and \<^verbatim>\<open>new Uint16Array(n)\<close> throw a
  \<^verbatim>\<open>RangeError\<close> for a negative length; the first allocation gets the number of
  cells and the last one the number of columns. A cell width of zero makes the source
  divide by zero (the quotient is \<^verbatim>\<open>Infinity\<close>, for which the allocation throws, or
  \<^verbatim>\<open>NaN\<close>); the model reports the error for both. Limits of the engine on the length
  of an array are not modelled.
\<close>

definition resize :: "SnowPile \<Rightarrow> surfacePos list \<Rightarrow> real \<Rightarrow> real \<Rightarrow> error + SnowPile" where
  "resize S surfacePositions width height =
     (if cellWidth S = 0 then Inl RangeError
      else
        let cols = \<lceil>width / cellWidth S\<rceil>;
            rows = \<lceil>height / cellWidth S\<rceil>;
            totalCells = cols * rows
        in if totalCells < 0 \<or> cols < 0 then Inl RangeError
           else Inr (resize_cols surfacePositions
                  (S\<lparr>colCount := cols, rowCount := rows,
                     currentBuffer := replicate (nat totalCells) 0,
                     nextBuffer := replicate (nat totalCells) 0,
                     columnCounts := replicate (nat cols) 0\<rparr>)
                  0))"

text \<open>
  The constructor stores the cell size; the remaining fields stay \<^verbatim>\<open>undefined\<close> until
  \<^verbatim>\<open>resize\<close> assigns them, and are modelled as empty arrays and zero counts.
\<close>

definition newSnowPile :: "real \<Rightarrow> SnowPile" where
  "newSnowPile cellSize0 =
     \<lparr> cellWidth = cellSize0, currentBuffer = [], nextBuffer = [], colCount = 0, rowCount = 0,
       columnCounts = [] \<rparr>"

subsection \<open>Collision with surfaces\<close>

text \<open>\<^verbatim>\<open>surfacePositions.some(pos => ...)\<close>, for the list of surfaces given.\<close>

fun nodeCollideWithElement :: "surfacePos list \<Rightarrow> real \<Rightarrow> real \<Rightarrow> bool" where
  "nodeCollideWithElement [] x y = False"
| "nodeCollideWithElement (pos # rest) x y =
     (if x < pos_right pos \<and> x > pos_left pos \<and> y < pos_bottom pos \<and> y > pos_top pos
      then True else nodeCollideWithElement rest x y)"

subsection \<open>Sequences of calls\<close>

text \<open>
  A caller of the grid issues \<^verbatim>\<open>add\<close>, \<^verbatim>\<open>update\<close>, \<^verbatim>\<open>clearRow\<close> and
  \<^verbatim>\<open>clearAllSnow\<close> in any order; each \<^verbatim>\<open>update\<close> comes with the random numbers it
  draws. A thrown error ends the sequence.
\<close>

datatype call = Add int int | Update "nat \<Rightarrow> real" | ClearRow int | ClearAllSnow

fun perform :: "config \<Rightarrow> SnowPile \<Rightarrow> call \<Rightarrow> error + SnowPile" where
  "perform cfg S (Add col baseRow) = Inr (add cfg S col baseRow)"
| "perform cfg S (Update rng) = update cfg rng S"
| "perform cfg S (ClearRow rowIndex) = Inr (clearRow S rowIndex)"
| "perform cfg S ClearAllSnow = Inr (clearAllSnow S)"

fun perform_all :: "config \<Rightarrow> SnowPile \<Rightarrow> call list \<Rightarrow> error + SnowPile" where
  "perform_all cfg S [] = Inr S"
| "perform_all cfg S (c # cs) =
     (case perform cfg S c of Inl e \<Rightarrow> Inl e | Inr S' \<Rightarrow> perform_all cfg S' cs)"

subsection \<open>Well-formed grids and counting\<close>

text \<open>
  The shape \<^verbatim>\<open>resize\<close> gives a grid: both buffers hold one cell per grid position and
  there is one cached count per column.
\<close>

definition grid_ok :: "SnowPile \<Rightarrow> bool" where
  "grid_ok S \<longleftrightarrow>
     0 \<le> colCount S \<and>
     length (currentBuffer S) = nat (colCount S * rowCount S) \<and>
     length (nextBuffer S) = nat (colCount S * rowCount S) \<and>
     length (columnCounts S) = nat (colCount S)"

text \<open>Every blocker of buffer \<open>a\<close> is a blocker of buffer \<open>b\<close>.\<close>

definition blockers_kept :: "8 word list \<Rightarrow> 8 word list \<Rightarrow> bool" where
  "blockers_kept a b \<longleftrightarrow> (\<forall>i. arr_get a i = Some 2 \<longrightarrow> arr_get b i = Some 2)"

text \<open>
  What every operation keeps of a grid: its dimensions, the lengths of its arrays, and
  the blockers of its active buffer.
\<close>

definition evolves :: "SnowPile \<Rightarrow> SnowPile \<Rightarrow> bool" where
  "evolves S T \<longleftrightarrow>
     colCount T = colCount S \<and> rowCount T = rowCount S \<and>
     length (currentBuffer T) = length (currentBuffer S) \<and>
     length (nextBuffer T) = length (nextBuffer S) \<and>
     length (columnCounts T) = length (columnCounts S) \<and>
     blockers_kept (currentBuffer S) (currentBuffer T)"

text \<open>
  The invariant of the physics pass of \<^verbatim>\<open>update\<close> on grid \<open>S\<close>: the write buffer
  keeps the blockers of the active buffer, and every recorded gap is a cell that holds
  snow in the active buffer.
\<close>

definition pass_ok :: "SnowPile \<Rightarrow> pass \<Rightarrow> bool" where
  "pass_ok S p \<longleftrightarrow>
     length (nextB p) = length (currentBuffer S) \<and>
     length (counts p) = length (columnCounts S) \<and>
     blockers_kept (currentBuffer S) (nextB p) \<and>
     (\<forall>(col, row) \<in> set (columnsNeedingCascade p).
        arr_get (currentBuffer S) (row * colCount S + col) = Some 1)"

text \<open>Buffer \<open>b\<close> is buffer \<open>a\<close> with some of its snow cells emptied.\<close>

definition cleared :: "8 word list \<Rightarrow> 8 word list \<Rightarrow> bool" where
  "cleared a b \<longleftrightarrow>
     length b = length a \<and>
     (\<forall>i. arr_get b i = arr_get a i \<or> (arr_get a i = Some 1 \<and> arr_get b i = Some 0))"

text \<open>The rows of column \<open>col\<close> that hold snow in a buffer, top to bottom.\<close>

definition snowRows :: "int \<Rightarrow> int \<Rightarrow> 8 word list \<Rightarrow> int \<Rightarrow> int list" where
  "snowRows cols rows buffer col =
     filter (\<lambda>row. arr_get buffer (row * cols + col) = Some 1) [0..rows - 1]"

definition snowCount :: "SnowPile \<Rightarrow> int \<Rightarrow> nat" where
  "snowCount S col = length (snowRows (colCount S) (rowCount S) (currentBuffer S) col)"

section \<open>Properties\<close>

subsection \<open>Typed arrays and indices\<close>

lemma length_arr_set [simp]: "length (arr_set a i v) = length a"
  by (simp add: arr_set_def)

lemma length_arr_upd [simp]: "length (arr_upd a i f) = length a"
  by (simp add: arr_upd_def split: option.split)

lemma arr_get_arr_set:
  "arr_get (arr_set a i v) j =
     (if j = i \<and> 0 \<le> i \<and> i < int (length a) then Some v else arr_get a j)"
  by (auto simp: arr_get_def arr_set_def nth_list_update)

lemma arr_get_written: "arr_get a i = Some v \<Longrightarrow> arr_get (arr_set a i w) i = Some w"
  by (auto simp: arr_get_def arr_set_def split: if_splits)

lemma arr_get_arr_set_map:
  "arr_get (arr_set a i v) j = (if j = i then map_option (\<lambda>x. v) (arr_get a j) else arr_get a j)"
  by (auto simp: arr_get_def arr_set_def)

lemma arr_get_in_range: "0 \<le> i \<Longrightarrow> i < int (length a) \<Longrightarrow> arr_get a i = Some (a ! nat i)"
  by (simp add: arr_get_def)

lemma arr_get_arr_upd:
  "arr_get (arr_upd a i f) j = (if j = i then map_option f (arr_get a j) else arr_get a j)"
  by (auto simp: arr_upd_def arr_get_arr_set_map split: option.split)

lemma typed_array_set_same_length:
  "length source = length target \<Longrightarrow> typed_array_set target source = Inr source"
  by (simp add: typed_array_set_def)

lemma cell_index_in_range:
  assumes "grid_ok S" "0 \<le> col" "col < colCount S" "0 \<le> row" "row < rowCount S"
  shows "0 \<le> row * colCount S + col" and "row * colCount S + col < int (length (currentBuffer S))"
proof -
  show "0 \<le> row * colCount S + col"
    using assms by simp
  have "row * colCount S \<le> (rowCount S - 1) * colCount S"
    using assms by (intro mult_right_mono) auto
  then have "row * colCount S + col < rowCount S * colCount S"
    using assms by (simp add: algebra_simps)
  moreover have "int (length (currentBuffer S)) = colCount S * rowCount S"
    using assms by (simp add: grid_ok_def)
  ultimately show "row * colCount S + col < int (length (currentBuffer S))"
    by (simp add: mult.commute)
qed

lemma flat_index_split:
  fixes cc rc i :: int
  assumes "0 < cc" "0 \<le> i" "i < cc * rc"
  shows "0 \<le> i mod cc" "i mod cc < cc" "0 \<le> i div cc" "i div cc < rc"
    "i div cc * cc + i mod cc = i"
proof -
  show "0 \<le> i mod cc"
    using assms(1) by (rule pos_mod_sign)
  show "i mod cc < cc"
    using assms(1) by (rule pos_mod_bound)
  show "i div cc * cc + i mod cc = i"
    by simp
  show "0 \<le> i div cc"
    using assms by (simp add: pos_imp_zdiv_nonneg_iff)
  show "i div cc < rc"
  proof (rule ccontr)
    assume "\<not> i div cc < rc"
    then have "rc * cc \<le> i div cc * cc"
      using assms(1) by (intro mult_right_mono) simp_all
    moreover have "i div cc * cc \<le> i"
      using pos_mod_sign [OF assms(1), of i] div_mult_mod_eq [of i cc] by linarith
    ultimately show False
      using assms(3) by (simp add: mult.commute)
  qed
qed

lemma upto_0_9: "[0..9::int] = [0, 1, 2, 3, 4, 5, 6, 7, 8, 9]"
  by (simp add: upto.simps)

lemma snowRows_pointwise:
  "snowRows cols 10 buffer col = rs \<Longrightarrow> 0 \<le> row \<Longrightarrow> row < 10 \<Longrightarrow>
     (arr_get buffer (row * cols + col) = Some 1 \<longleftrightarrow> row \<in> set rs)"
  by (auto simp: snowRows_def)

lemma upto_0_5: "[0..5::int] = [0, 1, 2, 3, 4, 5]"
  by (simp add: upto.simps)

lemmas loop_simps = add_loop.simps isRowFull_loop.simps clearRow_loop.simps
  clearAllSnow_rows.simps clearAllSnow_cols.simps cascade_loop.simps update_cols.simps
  update_rows.simps clearBottom_loop.simps resize_rows.simps resize_cols.simps

lemmas model_defs = arr_get_def arr_set_def arr_upd_def typed_array_set_def CONFIG_def
  getIndex_def getValue_def getValueUnsafe_def setValueUnsafe_def add_def isRowFull_def
  clearRow_def clearAllSnow_def cascadeColumn_def updateCell_def update_physics_def update_def
  resize_def newSnowPile_def

subsection \<open>One round of each loop\<close>

lemma add_loop_step:
  "row \<ge> 0 \<Longrightarrow> getValueUnsafe S col row \<noteq> Some 0 \<Longrightarrow>
     add_loop S col row = add_loop S col (row - 1)"
  by (subst add_loop.simps) simp

lemma add_loop_place:
  "row \<ge> 0 \<Longrightarrow> getValueUnsafe S col row = Some 0 \<Longrightarrow>
     add_loop S col row =
       (setValueUnsafe S col row 1)\<lparr>columnCounts := arr_upd (columnCounts S) col (\<lambda>c. c + 1)\<rparr>"
  by (subst add_loop.simps) simp

lemma add_loop_done: "\<not> row \<ge> 0 \<Longrightarrow> add_loop S col row = S"
  by (subst add_loop.simps) simp

lemma clearRow_loop_step:
  "col < colCount S \<Longrightarrow>
     clearRow_loop S rowIndex col =
       clearRow_loop
         (if getValueUnsafe S col rowIndex = Some 1 then
            (setValueUnsafe S col rowIndex 0)
              \<lparr>columnCounts := arr_upd (columnCounts S) col (\<lambda>c. c - 1)\<rparr>
          else S)
         rowIndex (col + 1)"
  by (subst clearRow_loop.simps) simp

lemma clearRow_loop_done: "\<not> col < colCount S \<Longrightarrow> clearRow_loop S rowIndex col = S"
  by (subst clearRow_loop.simps) simp

lemma clearAllSnow_rows_step:
  "row < rowCount S \<Longrightarrow>
     clearAllSnow_rows S col row =
       clearAllSnow_rows
         (if getValueUnsafe S col row = Some 1 then setValueUnsafe S col row 0 else S)
         col (row + 1)"
  by (subst clearAllSnow_rows.simps) simp

lemma clearAllSnow_rows_done: "\<not> row < rowCount S \<Longrightarrow> clearAllSnow_rows S col row = S"
  by (subst clearAllSnow_rows.simps) simp

lemma clearAllSnow_cols_step:
  "col < colCount S \<Longrightarrow>
     clearAllSnow_cols S col =
       clearAllSnow_cols
         ((clearAllSnow_rows S col 0)
            \<lparr>columnCounts := arr_set (columnCounts (clearAllSnow_rows S col 0)) col 0\<rparr>)
         (col + 1)"
  by (subst clearAllSnow_cols.simps) simp

lemma clearAllSnow_cols_done: "\<not> col < colCount S \<Longrightarrow> clearAllSnow_cols S col = S"
  by (subst clearAllSnow_cols.simps) simp

lemma clearBottom_loop_step:
  "col < colCount S \<Longrightarrow>
     clearBottom_loop S start col p =
       clearBottom_loop S start (col + 1)
         (if arr_get (nextB p) (start + col) = Some 1 then
            p\<lparr>nextB := arr_set (nextB p) (start + col) 0,
              counts := arr_upd (counts p) col (\<lambda>c. c - 1)\<rparr>
          else p)"
  by (subst clearBottom_loop.simps) simp

lemma clearBottom_loop_done: "\<not> col < colCount S \<Longrightarrow> clearBottom_loop S start col p = p"
  by (subst clearBottom_loop.simps) simp

subsection \<open>Blockers and array lengths are kept\<close>

lemma blockers_kept_refl [simp]: "blockers_kept a a"
  by (simp add: blockers_kept_def)

lemma blockers_kept_trans: "blockers_kept a b \<Longrightarrow> blockers_kept b c \<Longrightarrow> blockers_kept a c"
  by (simp add: blockers_kept_def)

lemma blockers_kept_write:
  "blockers_kept a b \<Longrightarrow> arr_get b i \<noteq> Some 2 \<Longrightarrow> blockers_kept a (arr_set b i v)"
  by (auto simp: blockers_kept_def arr_get_arr_set)

lemma blockers_kept_write_src:
  "blockers_kept a b \<Longrightarrow> arr_get a i \<noteq> Some 2 \<Longrightarrow> blockers_kept a (arr_set b i v)"
  by (auto simp: blockers_kept_def arr_get_arr_set)

lemma evolves_refl [simp]: "evolves S S"
  by (simp add: evolves_def)

lemma evolves_trans: "evolves S T \<Longrightarrow> evolves T U \<Longrightarrow> evolves S U"
  unfolding evolves_def using blockers_kept_trans by metis

lemma evolves_grid_ok: "grid_ok S \<Longrightarrow> evolves S T \<Longrightarrow> grid_ok T"
  by (simp add: grid_ok_def evolves_def)

lemma evolves_clear_cell:
  "getValueUnsafe S col row \<noteq> Some 2 \<Longrightarrow>
     evolves S ((setValueUnsafe S col row v)\<lparr>columnCounts := arr_upd (columnCounts S) c f\<rparr>) \<and>
     evolves S (setValueUnsafe S col row v)"
  by (simp add: evolves_def setValueUnsafe_def getValueUnsafe_def blockers_kept_write)

lemma add_loop_evolves: "evolves S (add_loop S col row)"
proof (induction S col row rule: add_loop.induct)
  case (1 S col row)
  consider (stop) "\<not> row \<ge> 0" | (place) "row \<ge> 0" "getValueUnsafe S col row = Some 0"
    | (step) "row \<ge> 0" "getValueUnsafe S col row \<noteq> Some 0"
    by blast
  then show ?case
  proof cases
    case stop
    then show ?thesis by (simp add: add_loop_done)
  next
    case place
    then show ?thesis by (simp add: add_loop_place evolves_clear_cell)
  next
    case step
    then show ?thesis using 1 by (simp add: add_loop_step)
  qed
qed

lemma add_evolves: "evolves S (add cfg S col baseRow)"
  by (simp add: add_def add_loop_evolves)

lemma clearRow_loop_evolves: "evolves S (clearRow_loop S rowIndex col)"
proof (induction S rowIndex col rule: clearRow_loop.induct)
  case (1 S rowIndex col)
  show ?case
  proof (cases "col < colCount S")
    case True
    let ?T = "if getValueUnsafe S col rowIndex = Some 1 then
             (setValueUnsafe S col rowIndex 0)
               \<lparr>columnCounts := arr_upd (columnCounts S) col (\<lambda>c. c - 1)\<rparr>
           else S"
    have "evolves S ?T"
      by (simp add: evolves_clear_cell)
    moreover have "evolves ?T (clearRow_loop ?T rowIndex (col + 1))"
      using 1 [OF True] .
    ultimately show ?thesis
      unfolding clearRow_loop_step [OF True] by (rule evolves_trans)
  next
    case False
    then show ?thesis
      by (simp add: clearRow_loop_done)
  qed
qed

lemma clearRow_evolves: "evolves S (clearRow S rowIndex)"
  by (simp add: clearRow_def clearRow_loop_evolves)

lemma clearAllSnow_rows_evolves: "evolves S (clearAllSnow_rows S col row)"
proof (induction S col row rule: clearAllSnow_rows.induct)
  case (1 S col row)
  show ?case
  proof (cases "row < rowCount S")
    case True
    let ?T = "if getValueUnsafe S col row = Some 1 then setValueUnsafe S col row 0 else S"
    have "evolves S ?T"
      by (simp add: evolves_clear_cell)
    moreover have "evolves ?T (clearAllSnow_rows ?T col (row + 1))"
      using 1 [OF True] .
    ultimately show ?thesis
      unfolding clearAllSnow_rows_step [OF True] by (rule evolves_trans)
  next
    case False
    then show ?thesis
      by (simp add: clearAllSnow_rows_done)
  qed
qed

lemma clearAllSnow_cols_evolves: "evolves S (clearAllSnow_cols S col)"
proof (induction S col rule: clearAllSnow_cols.induct)
  case (1 S col)
  show ?case
  proof (cases "col < colCount S")
    case True
    let ?R = "clearAllSnow_rows S col 0"
    let ?T = "?R\<lparr>columnCounts := arr_set (columnCounts ?R) col 0\<rparr>"
    have "evolves S ?R"
      by (rule clearAllSnow_rows_evolves)
    then have "evolves S ?T"
      by (simp add: evolves_def)
    moreover have "evolves ?T (clearAllSnow_cols ?T (col + 1))"
      using 1 [OF True] .
    ultimately show ?thesis
      unfolding clearAllSnow_cols_step [OF True] by (rule evolves_trans)
  next
    case False
    then show ?thesis
      by (simp add: clearAllSnow_cols_done)
  qed
qed

lemma clearAllSnow_evolves: "evolves S (clearAllSnow S)"
  by (simp add: clearAllSnow_def clearAllSnow_cols_evolves)

text \<open>What one run of the loop body can do to the write buffer and the list of gaps.\<close>

lemma updateCell_cases:
  fixes S :: SnowPile and p :: pass and row col :: int and cfg :: config
    and rng :: "nat \<Rightarrow> real"
  defines "idx \<equiv> row * colCount S + col"
  defines "p' \<equiv> updateCell cfg rng S row col p"
  shows
    "(nextB p' = nextB p \<and> columnsNeedingCascade p' = columnsNeedingCascade p \<and>
      counts p' = counts p)
   \<or> (arr_get (currentBuffer S) idx = Some 1 \<and>
      arr_get (currentBuffer S) ((row + 1) * colCount S + col) = Some 0 \<and>
      nextB p' = arr_set (arr_set (nextB p) ((row + 1) * colCount S + col) 1) idx 0 \<and>
      columnsNeedingCascade p' = columnsNeedingCascade p \<and> counts p' = counts p)
   \<or> (arr_get (currentBuffer S) idx = Some 1 \<and>
      arr_get (currentBuffer S) (idx - 1) = Some 0 \<and>
      nextB p' = arr_set (arr_set (nextB p) (idx - 1) 1) idx 0 \<and>
      columnsNeedingCascade p' = columnsNeedingCascade p @ [(col, row)] \<and>
      counts p' = arr_upd (arr_upd (counts p) col (\<lambda>c. c - 1)) (col - 1) (\<lambda>c. c + 1))
   \<or> (arr_get (currentBuffer S) idx = Some 1 \<and>
      arr_get (currentBuffer S) (idx + 1) = Some 0 \<and>
      nextB p' = arr_set (arr_set (nextB p) (idx + 1) 1) idx 0 \<and>
      columnsNeedingCascade p' = columnsNeedingCascade p @ [(col, row)] \<and>
      counts p' = arr_upd (arr_upd (counts p) col (\<lambda>c. c - 1)) (col + 1) (\<lambda>c. c + 1))
   \<or> (arr_get (currentBuffer S) idx = Some 1 \<and>
      nextB p' = arr_set (nextB p) idx 0 \<and>
      columnsNeedingCascade p' = columnsNeedingCascade p @ [(col, row)] \<and>
      counts p' = arr_upd (counts p) col (\<lambda>c. c - 1))"
  unfolding p'_def idx_def updateCell_def Let_def
  by auto

lemma updateCell_pass_ok:
  assumes "pass_ok S p"
  shows "pass_ok S (updateCell cfg rng S row col p)"
  using updateCell_cases [of cfg rng S row col p] assms
  by (auto simp: pass_ok_def blockers_kept_write_src)

lemma update_cols_pass_ok: "pass_ok S p \<Longrightarrow> pass_ok S (update_cols cfg rng S row col p)"
proof (induction cfg rng S row col p rule: update_cols.induct)
  case (1 cfg rng S row col p)
  show ?case
  proof (cases "col < colCount S")
    case True
    then show ?thesis
      using 1 by (subst update_cols.simps) (simp add: updateCell_pass_ok)
  next
    case False
    then show ?thesis
      using 1 by (subst update_cols.simps) simp
  qed
qed

lemma update_rows_pass_ok: "pass_ok S p \<Longrightarrow> pass_ok S (update_rows cfg rng S row p)"
proof (induction cfg rng S row p rule: update_rows.induct)
  case (1 cfg rng S row p)
  show ?case
  proof (cases "row \<ge> 0")
    case True
    then show ?thesis
      using 1 by (subst update_rows.simps) (simp add: update_cols_pass_ok)
  next
    case False
    then show ?thesis
      using 1 by (subst update_rows.simps) simp
  qed
qed

lemma cascade_loop_keeps:
  "blockers_kept c buffer \<Longrightarrow> readRow < writeRow \<Longrightarrow>
   (\<forall>r. readRow < r \<and> r \<le> writeRow \<longrightarrow> arr_get c (r * cc + col) \<noteq> Some 2) \<Longrightarrow>
     blockers_kept c (cascade_loop cc col buffer writeRow readRow) \<and>
     length (cascade_loop cc col buffer writeRow readRow) = length buffer"
proof (induction cc col buffer writeRow readRow rule: cascade_loop.induct)
  case (1 cc col buffer writeRow readRow)
  note kept = \<open>blockers_kept c buffer\<close> and above = "1.prems"(3)
  have here: "arr_get c (readRow * cc + col) \<noteq> Some 2"
    if "arr_get buffer (readRow * cc + col) \<noteq> Some 2"
    using kept that by (auto simp: blockers_kept_def)
  consider (stop) "\<not> readRow \<ge> 0"
    | (move) "readRow \<ge> 0" "arr_get buffer (readRow * cc + col) = Some 1"
    | (blocker) "readRow \<ge> 0" "arr_get buffer (readRow * cc + col) = Some 2"
    | (skip) "readRow \<ge> 0" "arr_get buffer (readRow * cc + col) \<noteq> Some 1"
        "arr_get buffer (readRow * cc + col) \<noteq> Some 2"
    by blast
  then show ?case
  proof cases
    case stop
    then show ?thesis
      using kept by (subst (1 2) cascade_loop.simps) simp
  next
    case move
    let ?b = "arr_set (arr_set buffer (writeRow * cc + col) 1) (readRow * cc + col) 0"
    have w: "arr_get c (writeRow * cc + col) \<noteq> Some 2"
      using above "1.prems"(2) by simp
    have r: "arr_get c (readRow * cc + col) \<noteq> Some 2"
      using here move by simp
    have k: "blockers_kept c ?b"
      using kept w r by (simp add: blockers_kept_write_src)
    have a: "\<forall>r. readRow - 1 < r \<and> r \<le> writeRow - 1 \<longrightarrow> arr_get c (r * cc + col) \<noteq> Some 2"
    proof (intro allI impI)
      fix r' assume "readRow - 1 < r' \<and> r' \<le> writeRow - 1"
      then have "r' = readRow \<or> (readRow < r' \<and> r' \<le> writeRow)" by auto
      then show "arr_get c (r' * cc + col) \<noteq> Some 2"
        using r above by auto
    qed
    have "blockers_kept c (cascade_loop cc col ?b (writeRow - 1) (readRow - 1)) \<and>
          length (cascade_loop cc col ?b (writeRow - 1) (readRow - 1)) = length ?b"
      using "1.IH"(1) [OF move k _ a] "1.prems"(2) by simp
    moreover have "cascade_loop cc col buffer writeRow readRow
        = cascade_loop cc col ?b (writeRow - 1) (readRow - 1)"
      using move by (subst cascade_loop.simps) simp
    ultimately show ?thesis by simp
  next
    case blocker
    then show ?thesis
      using kept by (subst (1 2) cascade_loop.simps) simp
  next
    case skip
    have a: "\<forall>r. readRow - 1 < r \<and> r \<le> writeRow \<longrightarrow> arr_get c (r * cc + col) \<noteq> Some 2"
    proof (intro allI impI)
      fix r' assume "readRow - 1 < r' \<and> r' \<le> writeRow"
      then have "r' = readRow \<or> (readRow < r' \<and> r' \<le> writeRow)" by auto
      then show "arr_get c (r' * cc + col) \<noteq> Some 2"
        using here skip above by auto
    qed
    have "blockers_kept c (cascade_loop cc col buffer writeRow (readRow - 1)) \<and>
          length (cascade_loop cc col buffer writeRow (readRow - 1)) = length buffer"
      using "1.IH"(2) [OF skip(1) skip(2) skip(3) kept _ a] "1.prems"(2) by simp
    moreover have "cascade_loop cc col buffer writeRow readRow
        = cascade_loop cc col buffer writeRow (readRow - 1)"
      using skip by (subst cascade_loop.simps) simp
    ultimately show ?thesis by simp
  qed
qed

lemma cascadeColumn_keeps:
  "blockers_kept c buffer \<Longrightarrow> arr_get c (gapRow * colCount S + col) \<noteq> Some 2 \<Longrightarrow>
     blockers_kept c (cascadeColumn S buffer col gapRow) \<and>
     length (cascadeColumn S buffer col gapRow) = length buffer"
proof -
  assume kept: "blockers_kept c buffer"
    and gap: "arr_get c (gapRow * colCount S + col) \<noteq> Some 2"
  have "\<forall>r. gapRow - 1 < r \<and> r \<le> gapRow \<longrightarrow> arr_get c (r * colCount S + col) \<noteq> Some 2"
  proof (intro allI impI)
    fix r assume "gapRow - 1 < r \<and> r \<le> gapRow"
    then have "r = gapRow" by arith
    then show "arr_get c (r * colCount S + col) \<noteq> Some 2"
      using gap by simp
  qed
  then show ?thesis
    unfolding cascadeColumn_def using kept by (intro cascade_loop_keeps) simp_all
qed

lemma cascade_all_keeps:
  "blockers_kept c buffer \<Longrightarrow>
   (\<forall>(col, row) \<in> set gaps. arr_get c (row * colCount S + col) \<noteq> Some 2) \<Longrightarrow>
     blockers_kept c (cascade_all S buffer gaps) \<and>
     length (cascade_all S buffer gaps) = length buffer"
proof (induction gaps arbitrary: buffer)
  case Nil
  then show ?case by simp
next
  case (Cons g gaps)
  obtain col row where g: "g = (col, row)" by (cases g)
  have "blockers_kept c (cascadeColumn S buffer col row) \<and>
        length (cascadeColumn S buffer col row) = length buffer"
    using Cons.prems g by (intro cascadeColumn_keeps) auto
  then show ?case
    using Cons.IH [of "cascadeColumn S buffer col row"] Cons.prems(2) g by simp
qed

lemma clearBottom_loop_keeps:
  "blockers_kept c (nextB p) \<Longrightarrow>
     blockers_kept c (nextB (clearBottom_loop S start col p)) \<and>
     length (nextB (clearBottom_loop S start col p)) = length (nextB p) \<and>
     length (counts (clearBottom_loop S start col p)) = length (counts p)"
proof (induction S start col p rule: clearBottom_loop.induct)
  case (1 S start col p)
  show ?case
  proof (cases "col < colCount S")
    case True
    let ?q = "if arr_get (nextB p) (start + col) = Some 1 then
             p\<lparr>nextB := arr_set (nextB p) (start + col) 0,
               counts := arr_upd (counts p) col (\<lambda>c. c - 1)\<rparr>
           else p"
    have q: "blockers_kept c (nextB ?q)" "length (nextB ?q) = length (nextB p)"
      "length (counts ?q) = length (counts p)"
      using "1.prems" by (auto simp: blockers_kept_write)
    have "clearBottom_loop S start col p = clearBottom_loop S start (col + 1) ?q"
      using True by (subst clearBottom_loop.simps) simp
    then show ?thesis
      using "1.IH" [OF True q(1)] q(2,3) by simp
  next
    case False
    then show ?thesis
      using "1.prems" by (subst (1 2 3) clearBottom_loop.simps) simp
  qed
qed

lemma update_physics_pass_ok:
  "length next0 = length (currentBuffer S) \<Longrightarrow> blockers_kept (currentBuffer S) next0 \<Longrightarrow>
     blockers_kept (currentBuffer S) (nextB (update_physics cfg rng S next0)) \<and>
     length (nextB (update_physics cfg rng S next0)) = length (currentBuffer S) \<and>
     length (counts (update_physics cfg rng S next0)) = length (columnCounts S)"
proof -
  assume len: "length next0 = length (currentBuffer S)"
    and kept: "blockers_kept (currentBuffer S) next0"
  let ?start = "\<lparr>nextB = next0, counts = columnCounts S, columnsNeedingCascade = [], draws = 0\<rparr>"
  let ?p = "update_rows cfg rng S (rowCount S - 2) ?start"
  have "pass_ok S ?start"
    using len kept by (simp add: pass_ok_def)
  then have p: "pass_ok S ?p"
    by (rule update_rows_pass_ok)
  then have gaps: "\<forall>(col, row) \<in> set (columnsNeedingCascade ?p).
      arr_get (currentBuffer S) (row * colCount S + col) \<noteq> Some 2"
    by (auto simp: pass_ok_def)
  have kept': "blockers_kept (currentBuffer S) (nextB ?p)"
    using p by (simp add: pass_ok_def)
  have "blockers_kept (currentBuffer S) (cascade_all S (nextB ?p) (columnsNeedingCascade ?p)) \<and>
     length (cascade_all S (nextB ?p) (columnsNeedingCascade ?p)) = length (nextB ?p)"
    using cascade_all_keeps [OF kept' gaps] .
  then show ?thesis
    using p by (simp add: update_physics_def Let_def pass_ok_def)
qed

lemma update_evolves:
  assumes "grid_ok S"
  shows "\<exists>T. update cfg rng S = Inr T \<and> evolves S T"
proof -
  have len: "length (currentBuffer S) = length (nextBuffer S)"
    using assms by (simp add: grid_ok_def)
  let ?p = "update_physics cfg rng S (currentBuffer S)"
  let ?q = "if \<not> collectAtBottom cfg then
              clearBottom_loop S ((rowCount S - 1) * colCount S) 0 ?p else ?p"
  have p: "blockers_kept (currentBuffer S) (nextB ?p)"
    "length (nextB ?p) = length (currentBuffer S)"
    "length (counts ?p) = length (columnCounts S)"
    using update_physics_pass_ok [of "currentBuffer S" S cfg rng] by simp_all
  have q: "blockers_kept (currentBuffer S) (nextB ?q) \<and>
      length (nextB ?q) = length (currentBuffer S) \<and>
      length (counts ?q) = length (columnCounts S)"
    using p clearBottom_loop_keeps [OF p(1), of S "(rowCount S - 1) * colCount S" 0] by simp
  have "update cfg rng S =
      Inr (S\<lparr>currentBuffer := nextB ?q, nextBuffer := currentBuffer S, columnCounts := counts ?q\<rparr>)"
    using len by (simp add: update_def typed_array_set_same_length Let_def)
  moreover have "evolves S
      (S\<lparr>currentBuffer := nextB ?q, nextBuffer := currentBuffer S, columnCounts := counts ?q\<rparr>)"
    using q len by (simp add: evolves_def)
  ultimately show ?thesis by blast
qed

lemma perform_evolves:
  "grid_ok S \<Longrightarrow> \<exists>T. perform cfg S c = Inr T \<and> evolves S T"
  by (cases c) (simp_all add: add_evolves update_evolves clearRow_evolves clearAllSnow_evolves)

lemma perform_all_evolves:
  "grid_ok S \<Longrightarrow> \<exists>T. perform_all cfg S cs = Inr T \<and> evolves S T"
proof (induction cs arbitrary: S)
  case Nil
  then show ?case by simp
next
  case (Cons c cs)
  from perform_evolves [OF Cons.prems, of cfg c]
  obtain T where T: "perform cfg S c = Inr T" "evolves S T" by blast
  then have "grid_ok T"
    using Cons.prems evolves_grid_ok by blast
  from Cons.IH [OF this]
  obtain U where U: "perform_all cfg T cs = Inr U" "evolves T U" by blast
  show ?case
    using T U by (auto intro: evolves_trans)
qed

lemma grid_ok_setValueUnsafe: "grid_ok S \<Longrightarrow> grid_ok (setValueUnsafe S col row v)"
  by (simp add: grid_ok_def setValueUnsafe_def)

lemma resize_rows_grid_ok: "grid_ok S \<Longrightarrow> grid_ok (resize_rows surfacePositions S col row)"
proof (induction surfacePositions S col row rule: resize_rows.induct)
  case (1 surfacePositions S col row)
  show ?case
  proof (cases "row < rowCount S")
    case True
    then show ?thesis
      using 1 by (subst resize_rows.simps) (simp add: grid_ok_setValueUnsafe)
  next
    case False
    then show ?thesis
      using 1 by (subst resize_rows.simps) simp
  qed
qed

lemma resize_cols_grid_ok: "grid_ok S \<Longrightarrow> grid_ok (resize_cols surfacePositions S col)"
proof (induction surfacePositions S col rule: resize_cols.induct)
  case (1 surfacePositions S col)
  show ?case
  proof (cases "col < colCount S")
    case True
    then show ?thesis
      using 1 by (subst resize_cols.simps) (simp add: resize_rows_grid_ok)
  next
    case False
    then show ?thesis
      using 1 by (subst resize_cols.simps) simp
  qed
qed

lemma resize_grid_ok:
  assumes "resize P surfacePositions width height = Inr S"
  shows "grid_ok S"
proof -
  let ?cols = "\<lceil>width / cellWidth P\<rceil>" and ?rows = "\<lceil>height / cellWidth P\<rceil>"
  have ok: "cellWidth P \<noteq> 0" "\<not> (?cols * ?rows < 0 \<or> ?cols < 0)"
    using assms by (auto simp: resize_def Let_def split: if_splits)
  let ?S0 = "P\<lparr>colCount := ?cols, rowCount := ?rows,
                currentBuffer := replicate (nat (?cols * ?rows)) 0,
                nextBuffer := replicate (nat (?cols * ?rows)) 0,
                columnCounts := replicate (nat ?cols) 0\<rparr>"
  have "grid_ok ?S0"
    using ok(2) by (simp add: grid_ok_def)
  moreover have "S = resize_cols surfacePositions ?S0 0"
    using assms ok by (simp add: resize_def Let_def)
  ultimately show ?thesis
    by (simp add: resize_cols_grid_ok)
qed

lemma evolves_getValue:
  "evolves S T \<Longrightarrow> getValue S col row = Some 2 \<Longrightarrow> getValue T col row = Some 2"
  by (auto simp: evolves_def getValue_def getIndex_def blockers_kept_def split: if_splits)

text \<open>
  Claim C3. Every cell that is a blocker after the construction of the grid by
  \<^verbatim>\<open>resize\<close> is still a blocker after any sequence of \<^verbatim>\<open>add\<close>, \<^verbatim>\<open>update\<close>,
  \<^verbatim>\<open>clearRow\<close> and \<^verbatim>\<open>clearAllSnow\<close> calls, whatever random numbers the updates
  draw; the sequence runs to its end without an error.
\<close>

theorem blockers_never_overwritten:
  assumes "resize P surfacePositions width height = Inr S"
  shows "\<exists>T. perform_all cfg S calls = Inr T \<and>
           (\<forall>col row. getValue S col row = Some 2 \<longrightarrow> getValue T col row = Some 2)"
proof -
  have "grid_ok S"
    using assms by (rule resize_grid_ok)
  then obtain T where "perform_all cfg S calls = Inr T" "evolves S T"
    using perform_all_evolves by blast
  then show ?thesis
    using evolves_getValue by blast
qed

theorem blockers_never_overwritten_witness:
  "resize (newSnowPile (cellSize CONFIG))
     [\<lparr> pos_top = 4, pos_left = 0, pos_right = 1, pos_bottom = 5,
        pos_width = 1, pos_height = 1 \<rparr>] 2 6
     = Inr \<lparr> cellWidth = 1, currentBuffer = [0, 0, 0, 0, 0, 0, 0, 0, 2, 0, 0, 0],
             nextBuffer = [0, 0, 0, 0, 0, 0, 0, 0, 0, 0, 0, 0],
             colCount = 2, rowCount = 6, columnCounts = [0, 0] \<rparr> \<and>
   (\<exists>T. perform_all CONFIG
           \<lparr> cellWidth = 1, currentBuffer = [0, 0, 0, 0, 0, 0, 0, 0, 2, 0, 0, 0],
             nextBuffer = [0, 0, 0, 0, 0, 0, 0, 0, 0, 0, 0, 0],
             colCount = 2, rowCount = 6, columnCounts = [0, 0] \<rparr>
           [Add 0 3, Update (\<lambda>n. 0), ClearRow 3, Add 0 5, ClearAllSnow] = Inr T \<and>
        getValue T 0 4 = Some 2)"
proof -
  let ?G = "\<lparr> cellWidth = 1, currentBuffer = [0, 0, 0, 0, 0, 0, 0, 0, 2, 0, 0, 0],
             nextBuffer = [0, 0, 0, 0, 0, 0, 0, 0, 0, 0, 0, 0],
             colCount = 2, rowCount = 6, columnCounts = [0, 0 :: 16 word] \<rparr>"
  have built: "resize (newSnowPile (cellSize CONFIG))
     [\<lparr> pos_top = 4, pos_left = 0, pos_right = 1, pos_bottom = 5,
        pos_width = 1, pos_height = 1 \<rparr>] 2 6 = Inr ?G"
    by (simp add: model_defs loop_simps Let_def eval_nat_numeral)
  have blocker: "getValue ?G 0 4 = Some 2"
    by (simp add: getValue_def getIndex_def arr_get_def)
  show ?thesis
    using built blocker
      blockers_never_overwritten [OF built, of CONFIG
        "[Add 0 3, Update (\<lambda>n. 0), ClearRow 3, Add 0 5, ClearAllSnow]"]
    by blast
qed

subsection \<open>Cached column counts\<close>

text \<open>
  Claim C1 says that the cached count of a column equals the number of snow cells of the
  column in every reachable state. The code does not keep this. A grid of 2 columns and
  6 rows is built with one blocker in column 0, row 4. Two \<^verbatim>\<open>add(0, 3)\<close> put snow
  into column 0 at rows 3 and 2, and \<^verbatim>\<open>add(1, 1)\<close> puts snow into column 1 at row 1;
  the counts are 2 and 1 and agree with the buffer. In the next \<^verbatim>\<open>update\<close> the first
  random number is 1/1000, so the snow at column 0, row 2 spreads to the right into
  column 1, row 2, and the snow at column 1, row 1 falls into the same cell. Afterwards
  column 1 holds one snow cell and its cached count is 2.
\<close>

theorem columnCounts_out_of_step:
  "\<exists>G G' S. resize (newSnowPile (cellSize CONFIG))
            [\<lparr> pos_top = 4, pos_left = 0, pos_right = 1, pos_bottom = 5,
               pos_width = 1, pos_height = 1 \<rparr>] 2 6 = Inr G \<and>
          perform_all CONFIG G [Add 0 3, Add 0 3, Add 1 1] = Inr G' \<and>
          currentBuffer G' = [0, 0, 0, 1, 1, 0, 1, 0, 2, 0, 0, 0] \<and>
          snowCount G' 0 = 2 \<and> snowCount G' 1 = 1 \<and> columnCounts G' = [2, 1] \<and>
          update CONFIG (\<lambda>n. 1 / 1000) G' = Inr S \<and>
          currentBuffer S = [0, 0, 0, 0, 0, 1, 1, 0, 2, 0, 0, 0] \<and>
          snowCount S 0 = 1 \<and> snowCount S 1 = 1 \<and> columnCounts S = [1, 2]"
proof -
  let ?G = "\<lparr> cellWidth = 1, currentBuffer = [0, 0, 0, 0, 0, 0, 0, 0, 2, 0, 0, 0],
             nextBuffer = [0, 0, 0, 0, 0, 0, 0, 0, 0, 0, 0, 0],
             colCount = 2, rowCount = 6, columnCounts = [0, 0 :: 16 word] \<rparr>"
  let ?G' = "\<lparr> cellWidth = 1, currentBuffer = [0, 0, 0, 1, 1, 0, 1, 0, 2, 0, 0, 0],
             nextBuffer = [0, 0, 0, 0, 0, 0, 0, 0, 0, 0, 0, 0],
             colCount = 2, rowCount = 6, columnCounts = [2, 1 :: 16 word] \<rparr>"
  let ?S = "\<lparr> cellWidth = 1, currentBuffer = [0, 0, 0, 0, 0, 1, 1, 0, 2, 0, 0, 0],
             nextBuffer = [0, 0, 0, 1, 1, 0, 1, 0, 2, 0, 0, 0],
             colCount = 2, rowCount = 6, columnCounts = [1, 2 :: 16 word] \<rparr>"
  have "resize (newSnowPile (cellSize CONFIG))
     [\<lparr> pos_top = 4, pos_left = 0, pos_right = 1, pos_bottom = 5,
        pos_width = 1, pos_height = 1 \<rparr>] 2 6 = Inr ?G"
    by (simp add: model_defs loop_simps Let_def eval_nat_numeral)
  moreover have "perform_all CONFIG ?G [Add 0 3, Add 0 3, Add 1 1] = Inr ?G'"
    by (simp add: model_defs loop_simps)
  moreover have "snowCount ?G' 0 = 2" "snowCount ?G' 1 = 1"
    by (simp_all add: snowCount_def snowRows_def upto_0_5 arr_get_def)
  moreover have "update CONFIG (\<lambda>n. 1 / 1000) ?G' = Inr ?S"
    by (simp add: model_defs loop_simps Let_def)
  moreover have "snowCount ?S 0 = 1" "snowCount ?S 1 = 1"
    by (simp_all add: snowCount_def snowRows_def upto_0_5 arr_get_def)
  ultimately show ?thesis
    by (intro exI [of _ ?G] exI [of _ ?G'] exI [of _ ?S]) simp
qed

subsection \<open>Writes of one update\<close>

text \<open>
  Claim C2 says that no index of the write buffer is written from two different source
  cells in one \<^verbatim>\<open>update\<close>. The code does: on the grid of the previous example, the
  loop body for the source cell at column 0, row 2 (index 4) writes snow to index 5 and
  clears index 4, and the loop body for the source cell at column 1, row 1 (index 3)
  writes snow to the same index 5 and clears index 3. The whole update clears both
  sources and leaves one snow cell at index 5, so that the buffer holds two snow cells
  where it held three, although nothing decayed and the bottom row was empty.
\<close>

theorem update_two_sources_one_destination:
  "let G = \<lparr> cellWidth = 1, currentBuffer = [0, 0, 0, 1, 1, 0, 1, 0, 2, 0, 0, 0],
             nextBuffer = [0, 0, 0, 0, 0, 0, 0, 0, 0, 0, 0, 0],
             colCount = 2, rowCount = 6, columnCounts = [2, 1] \<rparr>;
       p = \<lparr> nextB = currentBuffer G, counts = columnCounts G,
             columnsNeedingCascade = [], draws = 0 \<rparr>;
       rng = (\<lambda>n. 1 / 1000)
   in nextB (updateCell CONFIG rng G 2 0 p) = (currentBuffer G)[5 := 1, 4 := 0] \<and>
      nextB (updateCell CONFIG rng G 1 1 p) = (currentBuffer G)[5 := 1, 3 := 0] \<and>
      count_list (currentBuffer G) 1 = 3 \<and>
      (\<exists>S. update CONFIG rng G = Inr S \<and>
           currentBuffer S = [0, 0, 0, 0, 0, 1, 1, 0, 2, 0, 0, 0] \<and>
           count_list (currentBuffer S) 1 = 2)"
  by (simp add: model_defs loop_simps Let_def)

subsection \<open>The gravity cascade\<close>

lemma cascade_fills_gap_pointwise:
  assumes cols: "0 < colCount S" "0 \<le> col" "col < colCount S"
    and len: "length buffer = nat (10 * colCount S)"
    and snow: "\<forall>row. 0 \<le> row \<and> row < 10 \<longrightarrow>
        (arr_get buffer (row * colCount S + col) = Some 1 \<longleftrightarrow> row \<in> {2, 3, 5})"
  shows "\<forall>row. 0 \<le> row \<and> row < 10 \<longrightarrow>
        (arr_get (cascadeColumn S (arr_set buffer (3 * colCount S + col) 0) col 3)
           (row * colCount S + col) = Some 1 \<longleftrightarrow> row \<in> {3, 5})"
proof -
  define cc where "cc = colCount S"
  define b where "b = arr_set buffer (3 * cc + col) 0"
  define b' where "b' = arr_set (arr_set b (3 * cc + col) 1) (2 * cc + col) 0"
  have s2: "arr_get buffer (2 * cc + col) = Some 1"
    using snow [rule_format, of 2] by (simp add: cc_def)
  have s1: "arr_get buffer (cc + col) \<noteq> Some 1"
    using snow [rule_format, of 1] by (simp add: cc_def)
  have s0: "arr_get buffer col \<noteq> Some 1"
    using snow [rule_format, of 0] by (simp add: cc_def)
  have r2: "arr_get b (2 * cc + col) = Some 1"
    using s2 cols by (simp add: b_def arr_get_arr_set cc_def)
  have r1: "arr_get b' (cc + col) = arr_get buffer (cc + col)"
    using cols by (simp add: b'_def b_def arr_get_arr_set cc_def)
  have r0: "arr_get b' col = arr_get buffer col"
    using cols by (simp add: b'_def b_def arr_get_arr_set cc_def)
  have "cascade_loop cc col b' 2 (- 1) = b'"
    by (simp add: cascade_loop.simps)
  then have "cascade_loop cc col b' 2 0 = b'"
    using r0 s0 by (subst cascade_loop.simps) simp
  then have "cascade_loop cc col b' 2 1 = b'"
    using r1 s1 by (subst cascade_loop.simps) simp
  then have "cascade_loop cc col b 3 2 = b'"
    using r2 by (subst cascade_loop.simps) (simp add: b'_def)
  then have res: "cascadeColumn S (arr_set buffer (3 * colCount S + col) 0) col 3 = b'"
    by (simp add: cascadeColumn_def b_def cc_def)
  show ?thesis
  proof (intro allI impI)
    fix row :: int
    assume row: "0 \<le> row \<and> row < 10"
    have in3: "0 \<le> 3 * cc + col \<and> 3 * cc + col < int (length buffer)"
      using cols len by (simp add: cc_def)
    have in2: "0 \<le> 2 * cc + col \<and> 2 * cc + col < int (length buffer)"
      using cols len by (simp add: cc_def)
    have e3: "row * cc + col = 3 * cc + col \<longleftrightarrow> row = 3"
      using cols by (simp add: cc_def)
    have e2: "row * cc + col = 2 * cc + col \<longleftrightarrow> row = 2"
      using cols by (simp add: cc_def)
    have "arr_get b' (row * cc + col) = Some 1 \<longleftrightarrow> row \<in> {3, 5}"
      using snow [rule_format, OF row] in3 in2 e3 e2
      by (auto simp: b'_def b_def arr_get_arr_set cc_def)
    then show "arr_get (cascadeColumn S (arr_set buffer (3 * colCount S + col) 0) col 3)
           (row * colCount S + col) = Some 1 \<longleftrightarrow> row \<in> {3, 5}"
      by (simp add: res cc_def)
  qed
qed

text \<open>
  Claim C4, as amended. In a column of 10 rows that holds snow exactly at rows 2, 3 and
  5, after a decay has cleared row 3 and the cascade for the gap at row 3 has run, the
  column holds snow exactly at rows 3 and 5: the snow above the gap moves down into the
  gap, and the rows below the gap are not touched, so the empty row 4 stays empty.
\<close>

theorem cascade_fills_gap_from_above:
  assumes cols: "0 < colCount S" "0 \<le> col" "col < colCount S"
    and len: "length buffer = nat (10 * colCount S)"
    and snow: "snowRows (colCount S) 10 buffer col = [2, 3, 5]"
  shows "snowRows (colCount S) 10
           (cascadeColumn S (arr_set buffer (3 * colCount S + col) 0) col 3) col = [3, 5]"
proof -
  let ?b = "cascadeColumn S (arr_set buffer (3 * colCount S + col) 0) col 3"
  have "\<forall>row. 0 \<le> row \<and> row < 10 \<longrightarrow>
        (arr_get buffer (row * colCount S + col) = Some 1 \<longleftrightarrow> row \<in> {2, 3, 5})"
    using snowRows_pointwise [OF snow] by simp
  from cascade_fills_gap_pointwise [OF cols len this]
  have after: "arr_get ?b (row * colCount S + col) = Some 1 \<longleftrightarrow> row \<in> {3, 5}"
    if "0 \<le> row" "row < 10" for row
    using that by simp
  show ?thesis
    using after [of 0] after [of 1] after [of 2] after [of 3] after [of 4]
      after [of 5] after [of 6] after [of 7] after [of 8] after [of 9]
    by (simp add: snowRows_def upto_0_9)
qed

theorem cascade_fills_gap_from_above_witness:
  "snowRows 1 10 [0, 0, 1, 1, 0, 1, 0, 0, 0, 0] 0 = [2, 3, 5] \<and>
   snowRows 1 10
     (cascadeColumn \<lparr> cellWidth = 1, currentBuffer = [0, 0, 1, 1, 0, 1, 0, 0, 0, 0],
                      nextBuffer = [0, 0, 1, 1, 0, 1, 0, 0, 0, 0], colCount = 1, rowCount = 10,
                      columnCounts = [3] \<rparr>
        (arr_set [0, 0, 1, 1, 0, 1, 0, 0, 0, 0] 3 0) 0 3) 0 = [3, 5]"
proof -
  have h: "snowRows 1 10 [0, 0, 1, 1, 0, 1, 0, 0, 0, 0] 0 = [2, 3, 5]"
    by (simp add: snowRows_def upto_0_9 arr_get_def)
  show ?thesis
    using h cascade_fills_gap_from_above [of "\<lparr> cellWidth = 1, currentBuffer = [0, 0, 1, 1, 0, 1, 0, 0, 0, 0],
                      nextBuffer = [0, 0, 1, 1, 0, 1, 0, 0, 0, 0], colCount = 1, rowCount = 10,
                      columnCounts = [3] \<rparr>" 0 "[0, 0, 1, 1, 0, 1, 0, 0, 0, 0]"]
    by simp
qed

text \<open>
  Claim C4 as the specification states it (snow exactly at rows 2 and 4 after the
  cascade) fails on the column of a grid that is one column wide.
\<close>

theorem cascade_result_not_2_4:
  "snowRows 1 10 [0, 0, 1, 1, 0, 1, 0, 0, 0, 0] 0 = [2, 3, 5] \<and>
   snowRows 1 10
     (cascadeColumn \<lparr> cellWidth = 1, currentBuffer = [0, 0, 1, 1, 0, 1, 0, 0, 0, 0],
                      nextBuffer = [0, 0, 1, 1, 0, 1, 0, 0, 0, 0], colCount = 1, rowCount = 10,
                      columnCounts = [3] \<rparr>
        (arr_set [0, 0, 1, 1, 0, 1, 0, 0, 0, 0] 3 0) 0 3) 0 \<noteq> [2, 4]"
  by (simp add: snowRows_def upto_0_9 arr_get_def arr_set_def cascadeColumn_def cascade_loop.simps)

subsection \<open>Adding snow\<close>

text \<open>
  Claim C5. On a 10 by 10 grid whose cells are all empty, with bottom accumulation
  disabled, \<^verbatim>\<open>add(5, 9)\<close> changes nothing, and \<^verbatim>\<open>add(5, 8)\<close> writes snow into the
  cell of column 5 and row 8 (flat index 85), changes no other cell, and leaves the cached
  count of column 5 at 1.
\<close>

theorem add_scenario_10x10:
  "add CONFIG \<lparr> cellWidth = 1, currentBuffer = replicate 100 0, nextBuffer = replicate 100 0,
                colCount = 10, rowCount = 10, columnCounts = replicate 10 0 \<rparr> 5 9
     = \<lparr> cellWidth = 1, currentBuffer = replicate 100 0, nextBuffer = replicate 100 0,
         colCount = 10, rowCount = 10, columnCounts = replicate 10 0 \<rparr>
   \<and> add CONFIG \<lparr> cellWidth = 1, currentBuffer = replicate 100 0, nextBuffer = replicate 100 0,
                  colCount = 10, rowCount = 10, columnCounts = replicate 10 0 \<rparr> 5 8
     = \<lparr> cellWidth = 1, currentBuffer = (replicate 100 0)[85 := 1], nextBuffer = replicate 100 0,
         colCount = 10, rowCount = 10, columnCounts = (replicate 10 0)[5 := 1] \<rparr>
   \<and> collectAtBottom CONFIG = False"
  by (simp add: add_def CONFIG_def add_loop.simps getValueUnsafe_def setValueUnsafe_def
      arr_get_def arr_set_def arr_upd_def)

subsection \<open>Clearing all snow\<close>

lemma cleared_refl [simp]: "cleared a a"
  by (simp add: cleared_def)

lemma cleared_trans: "cleared a b \<Longrightarrow> cleared b c \<Longrightarrow> cleared a c"
  unfolding cleared_def by metis

lemma cleared_no_snow: "cleared a b \<Longrightarrow> arr_get a i \<noteq> Some 1 \<Longrightarrow> arr_get b i \<noteq> Some 1"
  unfolding cleared_def by metis

lemma cleared_write: "arr_get a i = Some 1 \<Longrightarrow> cleared a (arr_set a i 0)"
  by (auto simp: cleared_def arr_get_arr_set)

lemma clearAllSnow_rows_effect:
  "\<exists>b. clearAllSnow_rows S col row = S\<lparr>currentBuffer := b\<rparr> \<and> cleared (currentBuffer S) b \<and>
       (\<forall>r. row \<le> r \<and> r < rowCount S \<longrightarrow> arr_get b (r * colCount S + col) \<noteq> Some 1)"
proof (induction S col row rule: clearAllSnow_rows.induct)
  case (1 S col row)
  show ?case
  proof (cases "row < rowCount S")
    case True
    let ?i = "row * colCount S + col"
    let ?b1 = "if arr_get (currentBuffer S) ?i = Some 1 then arr_set (currentBuffer S) ?i 0
               else currentBuffer S"
    let ?T = "if getValueUnsafe S col row = Some 1 then setValueUnsafe S col row 0 else S"
    have T: "?T = S\<lparr>currentBuffer := ?b1\<rparr>"
      by (simp add: getValueUnsafe_def setValueUnsafe_def)
    have c1: "cleared (currentBuffer S) ?b1"
      by (simp add: cleared_write)
    have n1: "arr_get ?b1 ?i \<noteq> Some 1"
      by (simp add: arr_get_written)
    from "1.IH" [OF True] obtain b where
      b: "clearAllSnow_rows ?T col (row + 1) = ?T\<lparr>currentBuffer := b\<rparr>"
        "cleared (currentBuffer ?T) b"
        "\<forall>r. row + 1 \<le> r \<and> r < rowCount ?T \<longrightarrow> arr_get b (r * colCount ?T + col) \<noteq> Some 1"
      by blast
    have c2: "cleared ?b1 b"
      using b(2) by (simp add: T)
    have "clearAllSnow_rows S col row = S\<lparr>currentBuffer := b\<rparr>"
      using b(1) by (simp add: clearAllSnow_rows_step [OF True] T)
    moreover have "cleared (currentBuffer S) b"
      using c1 c2 by (rule cleared_trans)
    moreover have "\<forall>r. row \<le> r \<and> r < rowCount S \<longrightarrow> arr_get b (r * colCount S + col) \<noteq> Some 1"
    proof (intro allI impI)
      fix r assume r: "row \<le> r \<and> r < rowCount S"
      show "arr_get b (r * colCount S + col) \<noteq> Some 1"
      proof (cases "r = row")
        case True
        then show ?thesis
          using cleared_no_snow [OF c2 n1] by simp
      next
        case False
        then have "row + 1 \<le> r \<and> r < rowCount ?T"
          using r by (simp add: T)
        then show ?thesis
          using b(3) by (simp add: T)
      qed
    qed
    ultimately show ?thesis by blast
  next
    case False
    then show ?thesis
      by (intro exI [of _ "currentBuffer S"]) (auto simp: clearAllSnow_rows_done)
  qed
qed

text \<open>The counts after the columns from \<open>col\<close> on have been reset.\<close>

lemma clearAllSnow_cols_effect:
  "\<exists>b k. clearAllSnow_cols S col = S\<lparr>currentBuffer := b, columnCounts := k\<rparr> \<and>
       cleared (currentBuffer S) b \<and>
       (\<forall>c r. col \<le> c \<and> c < colCount S \<and> 0 \<le> r \<and> r < rowCount S \<longrightarrow>
          arr_get b (r * colCount S + c) \<noteq> Some 1) \<and>
       length k = length (columnCounts S) \<and>
       (\<forall>j. arr_get k j =
          (if col \<le> j \<and> j < colCount S then map_option (\<lambda>c. 0) (arr_get (columnCounts S) j)
           else arr_get (columnCounts S) j))"
proof (induction S col rule: clearAllSnow_cols.induct)
  case (1 S col)
  show ?case
  proof (cases "col < colCount S")
    case True
    obtain b1 where b1: "clearAllSnow_rows S col 0 = S\<lparr>currentBuffer := b1\<rparr>"
        "cleared (currentBuffer S) b1"
        "\<forall>r. 0 \<le> r \<and> r < rowCount S \<longrightarrow> arr_get b1 (r * colCount S + col) \<noteq> Some 1"
      using clearAllSnow_rows_effect [of S col 0] by blast
    let ?k1 = "arr_set (columnCounts S) col 0"
    let ?T = "(clearAllSnow_rows S col 0)
                \<lparr>columnCounts := arr_set (columnCounts (clearAllSnow_rows S col 0)) col 0\<rparr>"
    have T: "?T = S\<lparr>currentBuffer := b1, columnCounts := ?k1\<rparr>"
      by (simp add: b1(1))
    from "1.IH" [OF True] obtain b k where
      bk: "clearAllSnow_cols ?T (col + 1) = ?T\<lparr>currentBuffer := b, columnCounts := k\<rparr>"
        "cleared (currentBuffer ?T) b"
        "\<forall>c r. col + 1 \<le> c \<and> c < colCount ?T \<and> 0 \<le> r \<and> r < rowCount ?T \<longrightarrow>
          arr_get b (r * colCount ?T + c) \<noteq> Some 1"
        "length k = length (columnCounts ?T)"
        "\<forall>j. arr_get k j =
          (if col + 1 \<le> j \<and> j < colCount ?T then map_option (\<lambda>c. 0) (arr_get (columnCounts ?T) j)
           else arr_get (columnCounts ?T) j)"
      by blast
    have c2: "cleared b1 b"
      using bk(2) by (simp add: T)
    have "clearAllSnow_cols S col = S\<lparr>currentBuffer := b, columnCounts := k\<rparr>"
      using bk(1) by (simp add: clearAllSnow_cols_step [OF True] T)
    moreover have "cleared (currentBuffer S) b"
      using b1(2) c2 by (rule cleared_trans)
    moreover have "\<forall>c r. col \<le> c \<and> c < colCount S \<and> 0 \<le> r \<and> r < rowCount S \<longrightarrow>
          arr_get b (r * colCount S + c) \<noteq> Some 1"
    proof (intro allI impI)
      fix c r assume cr: "col \<le> c \<and> c < colCount S \<and> 0 \<le> r \<and> r < rowCount S"
      show "arr_get b (r * colCount S + c) \<noteq> Some 1"
      proof (cases "c = col")
        case True
        then show ?thesis
          using cleared_no_snow [OF c2] b1(3) cr by simp
      next
        case False
        then have "col + 1 \<le> c \<and> c < colCount ?T \<and> 0 \<le> r \<and> r < rowCount ?T"
          using cr by (simp add: T)
        then show ?thesis
          using bk(3) by (simp add: T)
      qed
    qed
    moreover have "length k = length (columnCounts S)"
      using bk(4) by (simp add: T)
    moreover have "\<forall>j. arr_get k j =
          (if col \<le> j \<and> j < colCount S then map_option (\<lambda>c. 0) (arr_get (columnCounts S) j)
           else arr_get (columnCounts S) j)"
    proof
      fix j
      show "arr_get k j =
          (if col \<le> j \<and> j < colCount S then map_option (\<lambda>c. 0) (arr_get (columnCounts S) j)
           else arr_get (columnCounts S) j)"
        using bk(5) [rule_format, of j] True
        by (cases "arr_get (columnCounts S) j") (auto simp: T arr_get_arr_set_map)
    qed
    ultimately show ?thesis by blast
  next
    case False
    then show ?thesis
      by (intro exI [of _ "currentBuffer S"] exI [of _ "columnCounts S"])
         (auto simp: clearAllSnow_cols_done)
  qed
qed

lemma clearAllSnow_closed_form:
  assumes "grid_ok S"
  shows "clearAllSnow S =
           S\<lparr>currentBuffer := map (\<lambda>v. if v = 1 then 0 else v) (currentBuffer S),
             columnCounts := replicate (nat (colCount S)) 0\<rparr>"
proof -
  obtain b k where bk: "clearAllSnow_cols S 0 = S\<lparr>currentBuffer := b, columnCounts := k\<rparr>"
      "cleared (currentBuffer S) b"
      "\<forall>c r. 0 \<le> c \<and> c < colCount S \<and> 0 \<le> r \<and> r < rowCount S \<longrightarrow>
          arr_get b (r * colCount S + c) \<noteq> Some 1"
      "length k = length (columnCounts S)"
      "\<forall>j. arr_get k j =
          (if 0 \<le> j \<and> j < colCount S then map_option (\<lambda>c. 0) (arr_get (columnCounts S) j)
           else arr_get (columnCounts S) j)"
    using clearAllSnow_cols_effect [of S 0] by blast
  have len: "length (currentBuffer S) = nat (colCount S * rowCount S)"
      "length (columnCounts S) = nat (colCount S)" "0 \<le> colCount S"
    using assms by (simp_all add: grid_ok_def)
  have "b = map (\<lambda>v. if v = 1 then 0 else v) (currentBuffer S)"
  proof (rule nth_equalityI)
    show "length b = length (map (\<lambda>v. if v = 1 then 0 else v) (currentBuffer S))"
      using bk(2) by (simp add: cleared_def)
  next
    fix n assume "n < length b"
    then have n: "n < length (currentBuffer S)" "length b = length (currentBuffer S)"
      using bk(2) by (simp_all add: cleared_def)
    then have i: "0 \<le> int n" "int n < colCount S * rowCount S"
      using len by simp_all
    then have pos: "0 < colCount S"
      using len(3) by (cases "colCount S = 0") auto
    note sp = flat_index_split [OF pos i]
    have "arr_get b (int n div colCount S * colCount S + int n mod colCount S) \<noteq> Some 1"
      using bk(3) sp by blast
    then have "arr_get b (int n) \<noteq> Some 1"
      by (simp add: sp(5))
    then have no: "b ! n \<noteq> 1"
      using n by (simp add: arr_get_def)
    have "arr_get b (int n) = arr_get (currentBuffer S) (int n) \<or>
        (arr_get (currentBuffer S) (int n) = Some 1 \<and> arr_get b (int n) = Some 0)"
      using bk(2) by (simp add: cleared_def)
    then have "b ! n = currentBuffer S ! n \<or> (currentBuffer S ! n = 1 \<and> b ! n = 0)"
      using n by (simp add: arr_get_def)
    then show "b ! n = map (\<lambda>v. if v = 1 then 0 else v) (currentBuffer S) ! n"
      using no n by auto
  qed
  moreover have "k = replicate (nat (colCount S)) 0"
  proof (rule nth_equalityI)
    show "length k = length (replicate (nat (colCount S)) (0 :: 16 word))"
      using bk(4) len by simp
  next
    fix n assume "n < length k"
    then have n: "n < nat (colCount S)" "n < length (columnCounts S)" "n < length k"
      using bk(4) len by simp_all
    have "int n < colCount S"
      using n(1) by linarith
    then have "arr_get k (int n) = map_option (\<lambda>c. 0) (arr_get (columnCounts S) (int n))"
      using bk(5) [rule_format, of "int n"] by simp
    then show "k ! n = replicate (nat (colCount S)) 0 ! n"
      using n by (simp add: arr_get_def)
  qed
  ultimately show ?thesis
    using bk(1) by (simp add: clearAllSnow_def)
qed

text \<open>
  Claim C7. On a well-formed grid, \<^verbatim>\<open>clearAllSnow\<close> called twice gives the state that
  one call gives, and one call replaces every snow cell of the active buffer by an empty
  cell, leaves every other cell (the blockers among them) as it is, and sets every
  cached count to zero.
\<close>

theorem clearAllSnow_idempotent:
  assumes "grid_ok S"
  shows "clearAllSnow (clearAllSnow S) = clearAllSnow S \<and>
         clearAllSnow S =
           S\<lparr>currentBuffer := map (\<lambda>v. if v = 1 then 0 else v) (currentBuffer S),
             columnCounts := replicate (nat (colCount S)) 0\<rparr>"
proof -
  let ?T = "clearAllSnow S"
  have "grid_ok ?T"
    using assms clearAllSnow_evolves evolves_grid_ok by blast
  then have "clearAllSnow ?T =
      ?T\<lparr>currentBuffer := map (\<lambda>v. if v = 1 then 0 else v) (currentBuffer ?T),
         columnCounts := replicate (nat (colCount ?T)) 0\<rparr>"
    by (rule clearAllSnow_closed_form)
  then show ?thesis
    by (simp add: clearAllSnow_closed_form [OF assms] comp_def)
qed

theorem clearAllSnow_idempotent_witness:
  "grid_ok \<lparr> cellWidth = 1, currentBuffer = [1, 2, 0, 1], nextBuffer = [0, 0, 0, 0],
             colCount = 2, rowCount = 2, columnCounts = [1, 1] \<rparr> \<and>
   clearAllSnow (clearAllSnow
     \<lparr> cellWidth = 1, currentBuffer = [1, 2, 0, 1], nextBuffer = [0, 0, 0, 0],
       colCount = 2, rowCount = 2, columnCounts = [1, 1] \<rparr>)
     = \<lparr> cellWidth = 1, currentBuffer = [0, 2, 0, 0], nextBuffer = [0, 0, 0, 0],
         colCount = 2, rowCount = 2, columnCounts = [0, 0] \<rparr> \<and>
   clearAllSnow
     \<lparr> cellWidth = 1, currentBuffer = [1, 2, 0, 1], nextBuffer = [0, 0, 0, 0],
       colCount = 2, rowCount = 2, columnCounts = [1, 1] \<rparr>
     = \<lparr> cellWidth = 1, currentBuffer = [0, 2, 0, 0], nextBuffer = [0, 0, 0, 0],
         colCount = 2, rowCount = 2, columnCounts = [0, 0] \<rparr>"
proof -
  have ok: "grid_ok \<lparr> cellWidth = 1, currentBuffer = [1, 2, 0, 1], nextBuffer = [0, 0, 0, 0],
             colCount = 2, rowCount = 2, columnCounts = [1, 1] \<rparr>"
    by (simp add: grid_ok_def)
  have twice: "clearAllSnow (clearAllSnow
     \<lparr> cellWidth = 1, currentBuffer = [1, 2, 0, 1], nextBuffer = [0, 0, 0, 0],
       colCount = 2, rowCount = 2, columnCounts = [1, 1] \<rparr>)
     = clearAllSnow \<lparr> cellWidth = 1, currentBuffer = [1, 2, 0, 1], nextBuffer = [0, 0, 0, 0],
       colCount = 2, rowCount = 2, columnCounts = [1, 1] \<rparr>"
    using clearAllSnow_idempotent [OF ok] by (rule conjunct1)
  have once: "clearAllSnow
     \<lparr> cellWidth = 1, currentBuffer = [1, 2, 0, 1], nextBuffer = [0, 0, 0, 0],
       colCount = 2, rowCount = 2, columnCounts = [1, 1] \<rparr>
     = \<lparr> cellWidth = 1, currentBuffer = [0, 2, 0, 0], nextBuffer = [0, 0, 0, 0],
         colCount = 2, rowCount = 2, columnCounts = [0, 0] \<rparr>"
    using clearAllSnow_idempotent [OF ok, THEN conjunct2] by (simp add: eval_nat_numeral)
  from twice once have "clearAllSnow (clearAllSnow
     \<lparr> cellWidth = 1, currentBuffer = [1, 2, 0, 1], nextBuffer = [0, 0, 0, 0],
       colCount = 2, rowCount = 2, columnCounts = [1, 1] \<rparr>)
     = \<lparr> cellWidth = 1, currentBuffer = [0, 2, 0, 0], nextBuffer = [0, 0, 0, 0],
         colCount = 2, rowCount = 2, columnCounts = [0, 0] \<rparr>"
    by (rule trans)
  then show ?thesis
    using ok once by blast
qed


subsection \<open>The bottom row as a drain\<close>

lemma clearBottom_loop_effect:
  "cleared (nextB p) (nextB (clearBottom_loop S start col p)) \<and>
   (\<forall>c. col \<le> c \<and> c < colCount S \<longrightarrow>
      arr_get (nextB (clearBottom_loop S start col p)) (start + c) \<noteq> Some 1) \<and>
   (\<forall>c. arr_get (counts (clearBottom_loop S start col p)) c =
      (if col \<le> c \<and> c < colCount S \<and> arr_get (nextB p) (start + c) = Some 1
       then map_option (\<lambda>n. n - 1) (arr_get (counts p) c)
       else arr_get (counts p) c))"
proof (induction S start col p rule: clearBottom_loop.induct)
  case (1 S start col p)
  show ?case
  proof (cases "col < colCount S")
    case True
    let ?q = "if arr_get (nextB p) (start + col) = Some 1 then
             p\<lparr>nextB := arr_set (nextB p) (start + col) 0,
               counts := arr_upd (counts p) col (\<lambda>c. c - 1)\<rparr>
           else p"
    let ?r = "clearBottom_loop S start (col + 1) ?q"
    have step: "clearBottom_loop S start col p = ?r"
      using True by (rule clearBottom_loop_step)
    have c1: "cleared (nextB p) (nextB ?q)"
      by (simp add: cleared_write)
    have n1: "arr_get (nextB ?q) (start + col) \<noteq> Some 1"
      by (simp add: arr_get_written)
    have other: "arr_get (nextB ?q) (start + c) = arr_get (nextB p) (start + c)" if "c \<noteq> col" for c
      using that by (simp add: arr_get_arr_set)
    have cnt: "arr_get (counts ?q) c =
        (if c = col \<and> arr_get (nextB p) (start + c) = Some 1
         then map_option (\<lambda>n. n - 1) (arr_get (counts p) c) else arr_get (counts p) c)" for c
      by (auto simp: arr_get_arr_upd)
    note IH = "1.IH" [OF True]
    have c2: "cleared (nextB ?q) (nextB ?r)"
      using IH by blast
    have "cleared (nextB p) (nextB ?r)"
      using c1 c2 by (rule cleared_trans)
    moreover have "\<forall>c. col \<le> c \<and> c < colCount S \<longrightarrow> arr_get (nextB ?r) (start + c) \<noteq> Some 1"
    proof (intro allI impI)
      fix c assume c: "col \<le> c \<and> c < colCount S"
      show "arr_get (nextB ?r) (start + c) \<noteq> Some 1"
      proof (cases "c = col")
        case True
        then show ?thesis
          using cleared_no_snow [OF c2 n1] by simp
      next
        case False
        then have "col + 1 \<le> c \<and> c < colCount S"
          using c by simp
        then show ?thesis
          using IH by blast
      qed
    qed
    moreover have "\<forall>c. arr_get (counts ?r) c =
      (if col \<le> c \<and> c < colCount S \<and> arr_get (nextB p) (start + c) = Some 1
       then map_option (\<lambda>n. n - 1) (arr_get (counts p) c)
       else arr_get (counts p) c)"
    proof
      fix c
      have "arr_get (counts ?r) c =
        (if col + 1 \<le> c \<and> c < colCount S \<and> arr_get (nextB ?q) (start + c) = Some 1
         then map_option (\<lambda>n. n - 1) (arr_get (counts ?q) c)
         else arr_get (counts ?q) c)"
        using IH by blast
      then show "arr_get (counts ?r) c =
        (if col \<le> c \<and> c < colCount S \<and> arr_get (nextB p) (start + c) = Some 1
         then map_option (\<lambda>n. n - 1) (arr_get (counts p) c)
         else arr_get (counts p) c)"
        using True other [of c] cnt [of c] by (cases "c = col") auto
    qed
    ultimately show ?thesis
      unfolding step by blast
  next
    case False
    then show ?thesis
      by (auto simp: clearBottom_loop_done)
  qed
qed

text \<open>
  Claim C6. With bottom accumulation disabled, \<^verbatim>\<open>update\<close> on a well-formed grid
  returns a grid whose last row holds no snow, and for every column the cached count is
  the count held before the bottom row was cleared (after the physics pass and the
  cascades), decremented when the bottom cell of the column then held snow and unchanged
  otherwise.
\<close>

theorem bottom_row_is_drained:
  assumes "grid_ok S" and "\<not> collectAtBottom cfg"
  shows "\<exists>T. update cfg rng S = Inr T \<and> colCount T = colCount S \<and> rowCount T = rowCount S \<and>
     (\<forall>col. getValue T col (rowCount T - 1) \<noteq> Some 1) \<and>
     (\<forall>col. 0 \<le> col \<and> col < colCount S \<longrightarrow>
        columnCounts T ! nat col =
          (if arr_get (nextB (update_physics cfg rng S (currentBuffer S)))
                ((rowCount S - 1) * colCount S + col) = Some 1
           then counts (update_physics cfg rng S (currentBuffer S)) ! nat col - 1
           else counts (update_physics cfg rng S (currentBuffer S)) ! nat col))"
proof -
  have len: "length (currentBuffer S) = length (nextBuffer S)"
    "length (columnCounts S) = nat (colCount S)"
    using assms(1) by (simp_all add: grid_ok_def)
  let ?p = "update_physics cfg rng S (currentBuffer S)"
  let ?start = "(rowCount S - 1) * colCount S"
  let ?q = "clearBottom_loop S ?start 0 ?p"
  let ?T = "S\<lparr>currentBuffer := nextB ?q, nextBuffer := currentBuffer S, columnCounts := counts ?q\<rparr>"
  have upd: "update cfg rng S = Inr ?T"
    using len assms(2) by (simp add: update_def typed_array_set_same_length Let_def)
  have plen: "length (counts ?p) = length (columnCounts S)"
    using update_physics_pass_ok [of "currentBuffer S" S cfg rng] by simp
  have qlen: "length (counts ?q) = length (counts ?p)"
    using clearBottom_loop_keeps [of "nextB ?p" ?p S ?start 0] by simp
  note eff = clearBottom_loop_effect [of ?p S ?start 0]
  have drained: "getValue ?T col (rowCount ?T - 1) \<noteq> Some 1" for col
  proof (cases "0 \<le> col \<and> col < colCount S")
    case True
    then have "arr_get (nextB ?q) (?start + col) \<noteq> Some 1"
      using eff by blast
    then show ?thesis
      by (simp add: getValue_def getIndex_def)
  next
    case False
    then show ?thesis
      by (auto simp: getValue_def)
  qed
  have cnts: "columnCounts ?T ! nat col =
          (if arr_get (nextB ?p) (?start + col) = Some 1
           then counts ?p ! nat col - 1 else counts ?p ! nat col)"
    if col: "0 \<le> col \<and> col < colCount S" for col
  proof -
    have inr: "0 \<le> col" "col < int (length (counts ?p))" "col < int (length (counts ?q))"
      using col plen qlen len(2) by simp_all
    have q: "arr_get (counts ?q) col = Some (counts ?q ! nat col)"
      and p: "arr_get (counts ?p) col = Some (counts ?p ! nat col)"
      using inr by (simp_all add: arr_get_in_range)
    have "arr_get (counts ?q) col =
      (if arr_get (nextB ?p) (?start + col) = Some 1
       then map_option (\<lambda>n. n - 1) (arr_get (counts ?p) col)
       else arr_get (counts ?p) col)"
      using eff col by simp
    then show ?thesis
      unfolding q p by (simp split: if_splits)
  qed
  show ?thesis
    using upd drained cnts by (intro exI [of _ ?T]) simp
qed

theorem bottom_row_is_drained_witness:
  "grid_ok \<lparr> cellWidth = 1, currentBuffer = [0, 0, 1, 0, 0, 0], nextBuffer = [0, 0, 0, 0, 0, 0],
             colCount = 2, rowCount = 3, columnCounts = [1, 0] \<rparr> \<and>
   \<not> collectAtBottom CONFIG \<and>
   (\<exists>T. update CONFIG (\<lambda>n. 0)
          \<lparr> cellWidth = 1, currentBuffer = [0, 0, 1, 0, 0, 0], nextBuffer = [0, 0, 0, 0, 0, 0],
            colCount = 2, rowCount = 3, columnCounts = [1, 0] \<rparr> = Inr T \<and>
        getValue T 0 2 \<noteq> Some 1 \<and> columnCounts T ! 0 = 0)"
proof -
  let ?G = "\<lparr> cellWidth = 1, currentBuffer = [0, 0, 1, 0, 0, 0],
             nextBuffer = [0, 0, 0, 0, 0, 0],
             colCount = 2, rowCount = 3, columnCounts = [1, 0 :: 16 word] \<rparr>"
  have ok: "grid_ok ?G"
    by (simp add: grid_ok_def)
  have off: "\<not> collectAtBottom CONFIG"
    by (simp add: CONFIG_def)
  have phys: "update_physics CONFIG (\<lambda>n. 0) ?G [0, 0, 1, 0, 0, 0] =
      \<lparr> nextB = [0, 0, 0, 0, 1, 0], counts = [1, 0], columnsNeedingCascade = [], draws = 0 \<rparr>"
    by (simp add: model_defs loop_simps Let_def)
  from bottom_row_is_drained [OF ok off, of "\<lambda>n. 0"] obtain T where
    T: "update CONFIG (\<lambda>n. 0) ?G = Inr T" "rowCount T = rowCount ?G"
      "\<forall>col. getValue T col (rowCount T - 1) \<noteq> Some 1"
      "\<forall>col. 0 \<le> col \<and> col < colCount ?G \<longrightarrow>
        columnCounts T ! nat col =
          (if arr_get (nextB (update_physics CONFIG (\<lambda>n. 0) ?G (currentBuffer ?G)))
                ((rowCount ?G - 1) * colCount ?G + col) = Some 1
           then counts (update_physics CONFIG (\<lambda>n. 0) ?G (currentBuffer ?G)) ! nat col - 1
           else counts (update_physics CONFIG (\<lambda>n. 0) ?G (currentBuffer ?G)) ! nat col)"
    by blast
  have "getValue T 0 2 \<noteq> Some 1"
    using T(3) [rule_format, of 0] T(2) by simp
  moreover have "columnCounts T ! 0 = 0"
    using T(4) [rule_format, of 0] by (simp add: phys arr_get_def)
  ultimately show ?thesis
    using ok off T(1) by blast
qed

subsection \<open>Bounds-checked reads\<close>

text \<open>
  Claim C8. \<^verbatim>\<open>getValue\<close> returns \<^verbatim>\<open>undefined\<close> (\<open>None\<close>) for every column or row
  outside the grid, and the cell of the active buffer for every position inside a
  well-formed grid.
\<close>

theorem getValue_bounds_checked:
  "(col < 0 \<or> colCount S \<le> col \<or> row < 0 \<or> rowCount S \<le> row \<longrightarrow> getValue S col row = None) \<and>
   (grid_ok S \<and> 0 \<le> col \<and> col < colCount S \<and> 0 \<le> row \<and> row < rowCount S \<longrightarrow>
      getValue S col row = Some (currentBuffer S ! nat (row * colCount S + col)))"
  using cell_index_in_range [of S col row]
  by (auto simp: getValue_def getIndex_def arr_get_def)

theorem getValue_bounds_checked_witness:
  "getValue \<lparr> cellWidth = 1, currentBuffer = [0, 2, 0, 1], nextBuffer = [0, 0, 0, 0],
               colCount = 2, rowCount = 2, columnCounts = [0, 1] \<rparr> 2 0 = None \<and>
   getValue \<lparr> cellWidth = 1, currentBuffer = [0, 2, 0, 1], nextBuffer = [0, 0, 0, 0],
               colCount = 2, rowCount = 2, columnCounts = [0, 1] \<rparr> 1 1 = Some 1"
  using getValue_bounds_checked [where col = 2 and row = 0 and
      S = "\<lparr> cellWidth = 1, currentBuffer = [0, 2, 0, 1], nextBuffer = [0, 0, 0, 0],
             colCount = 2, rowCount = 2, columnCounts = [0, 1] \<rparr>"]
    getValue_bounds_checked [where col = 1 and row = 1 and
      S = "\<lparr> cellWidth = 1, currentBuffer = [0, 2, 0, 1], nextBuffer = [0, 0, 0, 0],
             colCount = 2, rowCount = 2, columnCounts = [0, 1] \<rparr>"]
  by (simp add: grid_ok_def)

subsection \<open>Collision with a surface\<close>

text \<open>
  Claim C9. \<^verbatim>\<open>nodeCollideWithElement\<close> is true exactly when the point lies strictly
  inside at least one surface rectangle; a point that lies on an edge line of every
  rectangle is not a hit.
\<close>

theorem nodeCollideWithElement_strict_interior:
  "(nodeCollideWithElement surfacePositions x y \<longleftrightarrow>
      (\<exists>pos \<in> set surfacePositions.
         pos_left pos < x \<and> x < pos_right pos \<and> pos_top pos < y \<and> y < pos_bottom pos)) \<and>
   ((\<forall>pos \<in> set surfacePositions.
        x = pos_left pos \<or> x = pos_right pos \<or> y = pos_top pos \<or> y = pos_bottom pos) \<longrightarrow>
      \<not> nodeCollideWithElement surfacePositions x y)"
  by (induction surfacePositions) auto

theorem nodeCollideWithElement_strict_interior_witness:
  "nodeCollideWithElement
     [\<lparr> pos_top = 0, pos_left = 0, pos_right = 10, pos_bottom = 10,
        pos_width = 10, pos_height = 10 \<rparr>] 5 5 \<and>
   \<not> nodeCollideWithElement
     [\<lparr> pos_top = 0, pos_left = 0, pos_right = 10, pos_bottom = 10,
        pos_width = 10, pos_height = 10 \<rparr>] 10 5"
  using nodeCollideWithElement_strict_interior [where x = 5 and y = 5 and surfacePositions =
      "[\<lparr> pos_top = 0, pos_left = 0, pos_right = 10, pos_bottom = 10,
          pos_width = 10, pos_height = 10 \<rparr>]"]
    nodeCollideWithElement_strict_interior [where x = 10 and y = 5 and surfacePositions =
      "[\<lparr> pos_top = 0, pos_left = 0, pos_right = 10, pos_bottom = 10,
          pos_width = 10, pos_height = 10 \<rparr>]"]
  by simp

subsection \<open>Adding snow below the grid\<close>

text \<open>
  Claim C10. With bottom accumulation disabled, \<^verbatim>\<open>add\<close> returns without a change
  when \<open>baseRow\<close> is exactly the last row. For every \<open>baseRow\<close> beyond the last row
  the guard does not fire: the row is clamped to the last row and, when that cell is
  empty, snow is written into the bottom row and the cached count of the column is
  incremented.
\<close>

theorem add_past_last_row:
  assumes "\<not> collectAtBottom cfg"
  shows "add cfg S col (rowCount S - 1) = S \<and>
     (grid_ok S \<and> rowCount S - 1 < baseRow \<and> getValue S col (rowCount S - 1) = Some 0 \<longrightarrow>
        add cfg S col baseRow =
          S\<lparr>currentBuffer := (currentBuffer S)[nat ((rowCount S - 1) * colCount S + col) := 1],
            columnCounts := (columnCounts S)[nat col := columnCounts S ! nat col + 1]\<rparr>)"
proof (intro conjI impI)
  show "add cfg S col (rowCount S - 1) = S"
    using assms by (simp add: add_def)
next
  assume a: "grid_ok S \<and> rowCount S - 1 < baseRow \<and> getValue S col (rowCount S - 1) = Some 0"
  let ?row = "rowCount S - 1"
  have inb: "0 \<le> col" "col < colCount S" "0 \<le> ?row"
    and cell: "arr_get (currentBuffer S) (?row * colCount S + col) = Some 0"
    using a by (auto simp: getValue_def getIndex_def split: if_splits)
  have idx: "0 \<le> ?row * colCount S + col"
    "?row * colCount S + col < int (length (currentBuffer S))"
    using cell by (auto simp: arr_get_def split: if_splits)
  have cnt: "col < int (length (columnCounts S))"
    using a inb by (simp add: grid_ok_def)
  have "add cfg S col baseRow = add_loop S col ?row"
    using a by (simp add: add_def min_def)
  also have "\<dots> = (setValueUnsafe S col ?row 1)
      \<lparr>columnCounts := arr_upd (columnCounts S) col (\<lambda>c. c + 1)\<rparr>"
    using inb cell by (intro add_loop_place) (simp_all add: getValueUnsafe_def)
  also have "\<dots> = S\<lparr>currentBuffer := (currentBuffer S)[nat (?row * colCount S + col) := 1],
            columnCounts := (columnCounts S)[nat col := columnCounts S ! nat col + 1]\<rparr>"
    using idx inb cnt by (simp add: setValueUnsafe_def arr_set_def arr_upd_def arr_get_def)
  finally show "add cfg S col baseRow =
          S\<lparr>currentBuffer := (currentBuffer S)[nat ((rowCount S - 1) * colCount S + col) := 1],
            columnCounts := (columnCounts S)[nat col := columnCounts S ! nat col + 1]\<rparr>" .
qed

theorem add_past_last_row_witness:
  "\<not> collectAtBottom CONFIG \<and>
   add CONFIG \<lparr> cellWidth = 1, currentBuffer = [0, 0, 0, 0], nextBuffer = [0, 0, 0, 0],
                colCount = 2, rowCount = 2, columnCounts = [0, 0] \<rparr> 1 1
     = \<lparr> cellWidth = 1, currentBuffer = [0, 0, 0, 0], nextBuffer = [0, 0, 0, 0],
                colCount = 2, rowCount = 2, columnCounts = [0, 0] \<rparr> \<and>
   add CONFIG \<lparr> cellWidth = 1, currentBuffer = [0, 0, 0, 0], nextBuffer = [0, 0, 0, 0],
                colCount = 2, rowCount = 2, columnCounts = [0, 0] \<rparr> 1 2
     = \<lparr> cellWidth = 1, currentBuffer = [0, 0, 0, 1], nextBuffer = [0, 0, 0, 0],
         colCount = 2, rowCount = 2, columnCounts = [0, 1] \<rparr>"
proof -
  have off: "\<not> collectAtBottom CONFIG"
    by (simp add: CONFIG_def)
  show ?thesis
    using off add_past_last_row [OF off, where col = 1 and baseRow = 2 and
      S = "\<lparr> cellWidth = 1, currentBuffer = [0, 0, 0, 0], nextBuffer = [0, 0, 0, 0],
                colCount = 2, rowCount = 2, columnCounts = [0, 0] \<rparr>"]
    by (simp add: grid_ok_def getValue_def getIndex_def arr_get_def)
qed

end
